theory Spec2Isabelle
  imports Main
begin

section \<open>Node's \<open>path\<close> module (POSIX variant)\<close>

text \<open>
  \<open>Path\<close> (Raft.ts) is a thin wrapper around a string; every operation goes through
  Node's \<open>path\<close> module (\<open>npath.join\<close>, \<open>npath.dirname\<close>, \<open>npath.parse\<close>).
  That module is not part of the repository, so it is modelled here after Node's
  \<open>path.posix\<close>: the tool shells out to \<open>git\<close>, \<open>cmake\<close> and \<open>make\<close> and is set up
  through a \<open>bashrc\<close>, so the POSIX flavour is the one it runs on.
  \<open>normalize\<close> and \<open>join\<close> are written as Node 4 has them (split at the slashes,
  \<open>normalizeArray\<close>, join again); the character loop of later releases computes the same
  strings. \<open>dirname\<close> and \<open>parse\<close> follow the backward scans of Node 6 and later; the
  regular expression of Node 4 gives the same \<open>root\<close> and \<open>dir\<close>, and the same
  \<open>dirname\<close> except on \<open>//name\<close>, where it answers \<open>/\<close> and the scan \<open>//\<close> (both
  are roots for \<open>isRoot\<close>).
  A JavaScript string is a \<open>string\<close> (list of characters).
\<close>

text \<open>\<open>String.prototype.split('/')\<close>: the pieces between the slashes; the empty string
  splits into one empty piece. A character that is not a slash goes in front of the first
  piece of the rest (there always is one).\<close>

fun split_slash :: "string \<Rightarrow> string list" where
  "split_slash [] = [[]]"
| "split_slash (c # cs) =
     (if c = CHR ''/'' then [] # split_slash cs
      else (case split_slash cs of
              s # ss \<Rightarrow> (c # s) # ss
            | [] \<Rightarrow> [[c]]))"

text \<open>\<open>Array.prototype.join('/')\<close>.\<close>

fun join_slash :: "string list \<Rightarrow> string" where
  "join_slash [] = []"
| "join_slash [s] = s"
| "join_slash (s # t # ss) = s @ ''/'' @ join_slash (t # ss)"

text \<open>
  \<open>normalizeArray(parts, allowAboveRoot)\<close>: the loop over the parts with its result
  array \<open>res\<close> (\<open>push\<close> appends, \<open>pop\<close> drops the last element).
  \<^verbatim>\<open>
    if (!p || p === '.') continue;
    if (p === '..') {
      if (res.length && res[res.length - 1] !== '..') res.pop();
      else if (allowAboveRoot) res.push('..');
    } else res.push(p);
  \<close>
\<close>

fun normalizeArray :: "bool \<Rightarrow> string list \<Rightarrow> string list \<Rightarrow> string list" where
  "normalizeArray allowAboveRoot res [] = res"
| "normalizeArray allowAboveRoot res (p # parts) =
     (if p = [] \<or> p = ''.'' then normalizeArray allowAboveRoot res parts
      else if p = ''..'' then
        (if res \<noteq> [] \<and> last res \<noteq> ''..'' then normalizeArray allowAboveRoot (butlast res) parts
         else if allowAboveRoot then normalizeArray allowAboveRoot (res @ [''..'']) parts
         else normalizeArray allowAboveRoot res parts)
      else normalizeArray allowAboveRoot (res @ [p]) parts)"

definition isAbsolute :: "string \<Rightarrow> bool" where
  "isAbsolute path = (path \<noteq> [] \<and> hd path = CHR ''/'')"

definition trailingSlash :: "string \<Rightarrow> bool" where
  "trailingSlash path = (path \<noteq> [] \<and> last path = CHR ''/'')"

text \<open>
  \<open>path.normalize\<close>: resolve \<open>.\<close> and \<open>..\<close>, collapse runs of slashes, keep a trailing
  slash; the empty result of a relative path is \<open>.\<close>.
\<close>

definition npath_normalize :: "string \<Rightarrow> string" where
  "npath_normalize path =
     (let p = join_slash (normalizeArray (\<not> isAbsolute path) [] (split_slash path));
          p1 = (if p = [] \<and> \<not> isAbsolute path then ''.'' else p);
          p2 = (if p1 \<noteq> [] \<and> trailingSlash path then p1 @ ''/'' else p1)
      in (if isAbsolute path then ''/'' else []) @ p2)"

text \<open>
  \<open>path.join(...segments)\<close>: the non-empty segments are glued with a slash, in the
  order given, and the whole is normalized.
  \<^verbatim>\<open>
    if (segment) { if (!path) path += segment; else path += '/' + segment; }
  \<close>
\<close>

definition join_segment :: "string \<Rightarrow> string \<Rightarrow> string" where
  "join_segment path segment =
     (if segment = [] then path
      else if path = [] then segment
      else path @ ''/'' @ segment)"

definition npath_join :: "string list \<Rightarrow> string" where
  "npath_join segments = npath_normalize (foldl join_segment [] segments)"

text \<open>
  The backward scan shared by \<open>path.dirname\<close> and \<open>path.parse\<close>: from the last
  character down to index \<open>lo\<close>, skip the trailing slashes, skip the last component, and
  stop at the slash in front of it. \<open>scan_back path lo n matchedSlash\<close> looks at the indices
  below \<open>n\<close>; \<open>None\<close> is the loop running out (\<open>end = -1\<close>). \<open>dirname\<close> scans down
  to index 1, \<open>parse\<close> down to index 1 for an absolute path and to index 0 otherwise.
  \<^verbatim>\<open>
    for (i = path.length - 1; i >= lo; --i) {
      if (path.charCodeAt(i) === 47) { if (!matchedSlash) { end = i; break; } }
      else matchedSlash = false;
    }
  \<close>
\<close>

fun scan_back :: "string \<Rightarrow> nat \<Rightarrow> nat \<Rightarrow> bool \<Rightarrow> nat option" where
  "scan_back path lo 0 matchedSlash = None"
| "scan_back path lo (Suc i) matchedSlash =
     (if i < lo then None
      else if path ! i = CHR ''/'' then
        (if \<not> matchedSlash then Some i else scan_back path lo i matchedSlash)
      else scan_back path lo i False)"

text \<open>\<open>path.dirname\<close>.\<close>

definition npath_dirname :: "string \<Rightarrow> string" where
  "npath_dirname path =
     (if path = [] then ''.''
      else (case scan_back path 1 (length path) True of
              None \<Rightarrow> (if isAbsolute path then ''/'' else ''.'')
            | Some e \<Rightarrow> (if isAbsolute path \<and> e = 1 then ''//'' else take e path)))"

text \<open>
  \<open>path.parse\<close>, restricted to the two fields the program reads (\<open>root\<close> and \<open>dir\<close>):
  \<open>root\<close> is \<open>/\<close> for an absolute path and empty otherwise; \<open>dir\<close> is everything in
  front of the slash that precedes the last component (\<open>startPart - 1\<close>), and the root
  itself when there is no such slash.
\<close>

record ParsedPath =
  parsed_root :: string
  parsed_dir :: string

definition npath_parse :: "string \<Rightarrow> ParsedPath" where
  "npath_parse path =
     (if path = [] then \<lparr>parsed_root = [], parsed_dir = []\<rparr>
      else
        \<lparr>parsed_root = (if isAbsolute path then ''/'' else []),
         parsed_dir =
           (case scan_back path (if isAbsolute path then 1 else 0) (length path) True of
              Some i \<Rightarrow> take i path
            | None \<Rightarrow> (if isAbsolute path then ''/'' else []))\<rparr>)"

section \<open>The environment: file system, console, array objects\<close>

text \<open>
  What the program reaches through \<open>fs\<close>, \<open>mkdirp\<close> and \<open>console.log\<close>. The file system
  holds the names of its directories and of its regular files (with their contents); names
  are compared as strings, so the model speaks about resolved (absolute, normalized) names.
  \<open>raftlog(tag, message)\<close> prints \<open>tag:: message\<close>; the console keeps the two parts of
  each line apart. JavaScript arrays are objects with identity: the world keeps them in a
  store, and a reference is an index into it.
\<close>

record FileSystem =
  directories :: "string list"
  regular_files :: "(string \<times> string) list"

datatype errno = ENOENT | EEXIST | ENOTDIR

datatype error =
    Error string
  | Rejected_null
  | ReadError errno
  | SyntaxError
  | TypeError
  | ExecError string

record DependencyDescriptor_repository =
  repo_type :: "string option"
  location :: string

record DependencyDescriptor =
  name :: string
  repository :: DependencyDescriptor_repository
  buildSystem :: string

record World =
  fs :: FileSystem
  console :: "(string \<times> string) list"
  arrays :: "DependencyDescriptor list list"

definition raftlog :: "string \<Rightarrow> string \<Rightarrow> World \<Rightarrow> World" where
  "raftlog tag message w = w\<lparr>console := console w @ [(tag, message)]\<rparr>"

definition console_line :: "string \<times> string \<Rightarrow> string" where
  "console_line l = fst l @ '':: '' @ snd l"

definition accessSync :: "FileSystem \<Rightarrow> string \<Rightarrow> bool" where
  "accessSync fsys p = (p \<in> set (directories fsys) \<or> map_of (regular_files fsys) p \<noteq> None)"

definition new_array :: "DependencyDescriptor list \<Rightarrow> World \<Rightarrow> nat \<times> World" where
  "new_array xs w = (length (arrays w), w\<lparr>arrays := arrays w @ [xs]\<rparr>)"

definition array_write :: "nat \<Rightarrow> DependencyDescriptor list \<Rightarrow> World \<Rightarrow> World" where
  "array_write r xs w = w\<lparr>arrays := (arrays w)[r := xs]\<rparr>"

text \<open>
  \<open>fs.mkdir\<close>: refuses a name that exists (\<open>EEXIST\<close>), a parent that is missing
  (\<open>ENOENT\<close>) or that is a regular file (\<open>ENOTDIR\<close>), and creates the directory otherwise.
\<close>

definition fs_mkdir :: "FileSystem \<Rightarrow> string \<Rightarrow> errno + FileSystem" where
  "fs_mkdir fsys p =
     (if accessSync fsys p then Inl EEXIST
      else if npath_dirname p \<in> set (directories fsys)
        then Inr (fsys\<lparr>directories := directories fsys @ [p]\<rparr>)
      else if map_of (regular_files fsys) (npath_dirname p) \<noteq> None then Inl ENOTDIR
      else Inl ENOENT)"

text \<open>
  The \<open>mkdirp\<close> package (\<open>mkdirP(p, opts, f, made)\<close>), on a resolved name: try \<open>fs.mkdir\<close>;
  on \<open>ENOENT\<close> make the parent first and try again; on any other error look whether a
  directory is there already, and report success if so. The callback gets \<open>(er, made)\<close>,
  \<open>made\<close> being the first directory that had to be created, if any. The recursion is the
  package's own; \<open>None\<close> is a call that never comes back.
  \<^verbatim>\<open>
    xfs.mkdir(p, mode, function (er) {
      if (!er) { made = made || p; return cb(null, made); }
      switch (er.code) {
        case 'ENOENT':
          mkdirP(path.dirname(p), opts, function (er, made) {
            if (er) cb(er, made); else mkdirP(p, opts, cb, made); });
          break;
        default:
          xfs.stat(p, function (er2, stat) {
            if (er2 || !stat.isDirectory()) cb(er, made) else cb(null, made); });
      }});
  \<close>
\<close>

partial_function (option) mkdirP ::
  "string \<Rightarrow> string option \<Rightarrow> FileSystem \<Rightarrow> ((errno + string option) \<times> FileSystem) option" where
  "mkdirP p made fsys =
     (case fs_mkdir fsys p of
        Inr fsys' \<Rightarrow> Some (Inr (case made of None \<Rightarrow> Some p | Some m \<Rightarrow> Some m), fsys')
      | Inl er \<Rightarrow>
          (if er = ENOENT then
             Option.bind (mkdirP (npath_dirname p) made fsys)
               (\<lambda>r. if isl (fst r) then Some r
                    else mkdirP p (projr (fst r)) (snd r))
           else if p \<in> set (directories fsys) then Some (Inr made, fsys)
           else Some (Inl er, fsys)))"

section \<open>Path (Raft.ts)\<close>

text \<open>\<open>class Path { private path : string }\<close>: immutable, so a path is its string.
  A segment handed to \<open>append\<close> is a string or a \<open>Path\<close>; \<open>toString\<close> maps both to
  the string.\<close>

type_synonym Path = string

definition Path_toString :: "Path \<Rightarrow> string" where
  "Path_toString this = this"

definition Path_append :: "Path \<Rightarrow> Path list \<Rightarrow> Path" where
  "Path_append this paths = npath_join (this # map Path_toString paths)"

definition Path_parent :: "Path \<Rightarrow> Path" where
  "Path_parent this = npath_dirname this"

definition Path_isRoot :: "Path \<Rightarrow> bool" where
  "Path_isRoot this =
     (let parsedPath = npath_parse this
      in parsed_root parsedPath = parsed_dir parsedPath \<and> parsed_root parsedPath \<noteq> [])"

definition Path_exists :: "Path \<Rightarrow> FileSystem \<Rightarrow> bool" where
  "Path_exists this fsys = accessSync fsys this"

text \<open>
  \<open>createDirectory\<close>: \<open>mkdirp\<close>'s promise, mapped to \<open>true\<close> when it is fulfilled
  (whatever \<open>made\<close> is) and to \<open>false\<close> when it is rejected.
\<close>

definition Path_createDirectory :: "Path \<Rightarrow> FileSystem \<Rightarrow> (bool \<times> FileSystem) option" where
  "Path_createDirectory this fsys =
     (case mkdirP this None fsys of
        None \<Rightarrow> None
      | Some (Inr success, fsys') \<Rightarrow> Some (True, fsys')
      | Some (Inl er, fsys') \<Rightarrow> Some (False, fsys'))"

section \<open>Project (Project.ts)\<close>

text \<open>
  \<open>BuildConfig.Build\<close>: the build target. \<open>BuildConfig.ts\<close> is not among the sources; the
  platform and the architecture enter the program only through \<open>toString\<close> inside
  \<open>Path.append\<close>, so they are the strings they print as (\<open>Raft.ts\<close> declares them as
  strings).
\<close>

record Build =
  isDeploy :: bool
  platform :: string
  architecture :: string

text \<open>\<open>RaftFile.Root\<close>, the parsed manifest: its \<open>dependencies\<close> field refers to an
  array object.\<close>

record Root =
  dependencies :: nat

record Project =
  root :: Path
  raftfile :: "Root option"

definition RAFT_DIR :: Path where
  "RAFT_DIR = ''Raft''"

definition RAFT_FILE :: Path where
  "RAFT_FILE = Path_append RAFT_DIR [''raftfile.json'']"

definition BUILD_DIR :: Path where
  "BUILD_DIR = ''build''"

definition DEPENDENCY_DIR :: Path where
  "DEPENDENCY_DIR = Path_append RAFT_DIR [''libs'']"

definition DEPENDENCY_SRC_DIR :: Path where
  "DEPENDENCY_SRC_DIR = Path_append DEPENDENCY_DIR [''src'']"

definition DEPENDENCY_BUILD_DIR :: Path where
  "DEPENDENCY_BUILD_DIR = Path_append DEPENDENCY_DIR [''build'']"

definition DEPENDENCY_INSTALL_DIR :: Path where
  "DEPENDENCY_INSTALL_DIR = Path_append DEPENDENCY_DIR [''install'']"

definition DEPENDENCY_LIB_DIR :: Path where
  "DEPENDENCY_LIB_DIR = ''lib''"

definition DEPENDENCY_INC_DIR :: Path where
  "DEPENDENCY_INC_DIR = ''include''"

definition dirForDependency :: "Project \<Rightarrow> string \<Rightarrow> Path" where
  "dirForDependency this nm = Path_append (root this) [DEPENDENCY_SRC_DIR, nm]"

definition dirForDependencyBuild :: "Project \<Rightarrow> string \<Rightarrow> Build \<Rightarrow> Path" where
  "dirForDependencyBuild this nm build =
     Path_append (root this) [DEPENDENCY_BUILD_DIR, platform build, architecture build, nm]"

definition dirForDependencyInstall :: "Project \<Rightarrow> Build \<Rightarrow> Path" where
  "dirForDependencyInstall this build =
     Path_append (root this) [DEPENDENCY_INSTALL_DIR, platform build, architecture build]"

definition dirForDependencyLib :: "Project \<Rightarrow> Build \<Rightarrow> Path" where
  "dirForDependencyLib this build =
     Path_append (dirForDependencyInstall this build) [DEPENDENCY_LIB_DIR]"

definition dirForDependencyInc :: "Project \<Rightarrow> Build \<Rightarrow> Path" where
  "dirForDependencyInc this build =
     Path_append (dirForDependencyInstall this build) [DEPENDENCY_INC_DIR]"

definition dirForBuild :: "Project \<Rightarrow> Build \<Rightarrow> error + Path" where
  "dirForBuild this build =
     (if isDeploy build then Inl (Error ''deploy has not been implemented'')
      else Inr (Path_append (root this) [BUILD_DIR]))"

text \<open>
  \<open>CMakeDependency.build\<close> (Raft.ts) derives three places for a dependency and a build
  target before it configures: where the source is, where it is built, and the install
  prefix. (The \<open>Project\<close> of Raft.ts takes the dependency and reads its name; the paths
  are the same.)
\<close>

record Locations =
  sourceLocation :: Path
  buildLocation :: Path
  installLocation :: Path

definition CMakeDependency_locations :: "Project \<Rightarrow> string \<Rightarrow> Build \<Rightarrow> Locations" where
  "CMakeDependency_locations project nm build =
     \<lparr>sourceLocation = dirForDependency project nm,
      buildLocation = dirForDependencyBuild project nm build,
      installLocation = dirForDependencyInstall project build\<rparr>"

text \<open>
  Modelled from the spec: \<open>Path.read()\<close> lives in \<open>Path.ts\<close>, which is not among the
  sources (the \<open>Path\<close> of Raft.ts has no \<open>read\<close>). The spec has the manifest loaded from
  \<open>root/<marker>/raftfile.json\<close>, a read failure failing the discovery: the promise is
  fulfilled with the file's contents, and rejected when there is no such file.
\<close>

definition Path_read :: "Path \<Rightarrow> FileSystem \<Rightarrow> error + string" where
  "Path_read this fsys =
     (case map_of (regular_files fsys) this of
        None \<Rightarrow> Inl (ReadError ENOENT)
      | Some data \<Rightarrow> Inr data)"

text \<open>
  \<open>JSON.parse\<close> and \<open>JSON.stringify\<close> are the language's own and stay parameters:
  \<open>parse\<close> yields the descriptors of the manifest's \<open>dependencies\<close> array (\<open>None\<close>: it
  throws a \<open>SyntaxError\<close>), \<open>stringify\<close> prints them.
\<close>

record JSON =
  parse :: "string \<Rightarrow> DependencyDescriptor list option"
  stringify :: "DependencyDescriptor list \<Rightarrow> string"

text \<open>\<open>_.first\<close>: the first element, \<open>undefined\<close> for an empty array.\<close>

definition first :: "'a list \<Rightarrow> 'a option" where
  "first xs = (case xs of [] \<Rightarrow> None | x # _ \<Rightarrow> Some x)"

text \<open>
  The loop of \<open>Project.find\<close> (the same in Project.ts and Raft.ts):
  \<^verbatim>\<open>
    while (!_.last(paths).isRoot()) { paths.push(_.last(paths).parent()); }
  \<close>
  \<open>None\<close> is the loop that never ends.
\<close>

partial_function (option) find_paths :: "Path list \<Rightarrow> Path list option" where
  "find_paths paths =
     (if Path_isRoot (last paths) then Some paths
      else find_paths (paths @ [Path_parent (last paths)]))"

text \<open>
  \<open>load\<close>: read the manifest, log it, parse it into \<open>this.raftfile\<close> (a fresh array
  object holds the dependencies), log it again, and resolve to \<open>this\<close>.
\<close>

definition Project_load :: "JSON \<Rightarrow> Project \<Rightarrow> World \<Rightarrow> (error + Project) \<times> World" where
  "Project_load json this w =
     (case Path_read (Path_append (root this) [RAFT_FILE]) (fs w) of
        Inl e \<Rightarrow> (Inl e, w)
      | Inr data \<Rightarrow>
          (let w1 = raftlog ''Project Data'' data w
           in case parse json data of
                None \<Rightarrow> (Inl SyntaxError, w1)
              | Some deps \<Rightarrow>
                  (let (r, w2) = new_array deps w1;
                       this' = this\<lparr>raftfile := Some \<lparr>dependencies = r\<rparr>\<rparr>
                   in (Inr this', raftlog ''Project Data'' (stringify json deps) w2))))"

text \<open>
  \<open>Project.find\<close> of Project.ts: the first path of the chain under which \<open>Raft\<close> exists
  becomes the root of a project, which is loaded; with no such path the promise is rejected
  with \<open>null\<close>.
\<close>

definition Project_find :: "JSON \<Rightarrow> Path \<Rightarrow> World \<Rightarrow> ((error + Project) \<times> World) option" where
  "Project_find json path w =
     (case find_paths [path] of
        None \<Rightarrow> None
      | Some paths \<Rightarrow>
          (let raftDir = ''Raft''
           in case first (filter (\<lambda>p. Path_exists (Path_append p [raftDir]) (fs w)) paths) of
                Some rootDir \<Rightarrow> Some (Project_load json \<lparr>root = rootDir, raftfile = None\<rparr> w)
              | None \<Rightarrow> Some (Inl Rejected_null, w)))"

text \<open>\<open>Project.dependencies()\<close>: \<open>this.raftfile.dependencies.slice(0)\<close>, a new array
  with the same elements; without a loaded manifest the property access throws. (A
  reference always points into the store; the test of it only keeps the model total.)\<close>

definition Project_dependencies :: "Project \<Rightarrow> World \<Rightarrow> error + nat \<times> World" where
  "Project_dependencies this w =
     (case raftfile this of
        None \<Rightarrow> Inl TypeError
      | Some rf \<Rightarrow>
          (if dependencies rf < length (arrays w)
           then Inr (new_array (arrays w ! dependencies rf) w)
           else Inl TypeError))"

section \<open>Project (Raft.ts)\<close>

text \<open>The older \<open>Project\<close> class inside Raft.ts: only \<open>root\<close> is ever assigned, and
  \<open>find\<close> returns the project itself, or \<open>null\<close>.\<close>

record Raft_Project =
  Raft_root :: Path

definition Raft_Project_find :: "Path \<Rightarrow> FileSystem \<Rightarrow> Raft_Project option option" where
  "Raft_Project_find path fsys =
     (case find_paths [path] of
        None \<Rightarrow> None
      | Some paths \<Rightarrow>
          (let raftDir = ''Raft''
           in case first (filter (\<lambda>p. Path_exists (Path_append p [raftDir]) fsys) paths) of
                Some rootDir \<Rightarrow> Some (Some \<lparr>Raft_root = rootDir\<rparr>)
              | None \<Rightarrow> Some None))"

section \<open>Dependencies (Raft.ts)\<close>

text \<open>\<open>GitRepository\<close> is the one class that implements \<open>Repository\<close>;
  \<open>CMakeDependency\<close> extends \<open>RepositoryDependency\<close>. Both carry a name and a
  repository.\<close>

datatype Repository = GitRepository string

datatype Dependency =
    RepositoryDependency string Repository
  | CMakeDependency string Repository

text \<open>\<open>createRepository\<close>: \<open>if (repoDescriptor.type)\<close> is JavaScript truthiness, so a
  missing type and the empty string take the \<open>else\<close> branch and every other string the
  first one.\<close>

definition createRepository :: "DependencyDescriptor_repository \<Rightarrow> error + Repository" where
  "createRepository repoDescriptor =
     (if repo_type repoDescriptor \<noteq> None \<and> repo_type repoDescriptor \<noteq> Some []
      then Inr (GitRepository (location repoDescriptor))
      else Inl (Error ''Unknown repository type''))"

definition createDependency :: "DependencyDescriptor \<Rightarrow> error + Dependency" where
  "createDependency dependencyDescriptor =
     (case createRepository (repository dependencyDescriptor) of
        Inl e \<Rightarrow> Inl e
      | Inr repo \<Rightarrow>
          (if buildSystem dependencyDescriptor = ''cmake''
           then Inr (CMakeDependency (name dependencyDescriptor) repo)
           else Inl (Error ''unknown build system type'')))"

section \<open>\<open>System.execute\<close> (Raft.ts)\<close>

record ProcessOutput =
  stdout :: string
  stderr :: string

record ExecuteOptions =
  cwd :: "Path option"
  tag :: "string option"

text \<open>
  \<open>child_process.exec(command, nodeOptions, callback)\<close> is the outside world and stays a
  parameter: given the command, the working directory and the file system, it answers with an
  error or the two output buffers, and with the file system the command left behind.
\<close>

type_synonym child_process_exec =
  "string \<Rightarrow> string option \<Rightarrow> FileSystem \<Rightarrow> (error + string \<times> string) \<times> FileSystem"

text \<open>The tail of \<open>execute\<close>: run the command, and on success log under \<open>tag\<close> and
  hand back the buffers.\<close>

definition execute_command ::
  "child_process_exec \<Rightarrow> string \<Rightarrow> string option \<Rightarrow> string \<Rightarrow> World
     \<Rightarrow> (error + ProcessOutput) \<times> World" where
  "execute_command exec command nodeOptions_cwd tg w =
     (case exec command nodeOptions_cwd (fs w) of
        (Inl e, fsys') \<Rightarrow> (Inl e, w\<lparr>fs := fsys'\<rparr>)
      | (Inr buffers, fsys') \<Rightarrow>
          (Inr \<lparr>stdout = fst buffers, stderr = snd buffers\<rparr>,
           raftlog tg ''Finished successfullly'' (w\<lparr>fs := fsys'\<rparr>)))"

text \<open>
  \<open>execute(command, options)\<close>: \<open>options || {}\<close>, \<open>tag = options.tag || command\<close> (an
  empty tag is falsy). With a \<open>cwd\<close> the first line is logged under \<open>command\<close>, the
  directory is created, and \<open>Created ...\<close> is logged under \<open>tag\<close> if \<open>createDirectory\<close>
  said \<open>true\<close>; without one the first line is logged under \<open>tag\<close>. \<open>None\<close>: the
  promise never settles.
\<close>

definition System_execute ::
  "child_process_exec \<Rightarrow> string \<Rightarrow> ExecuteOptions option \<Rightarrow> World
     \<Rightarrow> ((error + ProcessOutput) \<times> World) option" where
  "System_execute exec command options w =
     (let opts = (case options of None \<Rightarrow> \<lparr>cwd = None, tag = None\<rparr> | Some given \<Rightarrow> given);
          tg = (case tag opts of
                  None \<Rightarrow> command
                | Some t \<Rightarrow> (if t = [] then command else t))
      in case cwd opts of
           Some dir \<Rightarrow>
             (let w1 = raftlog command (''Running in '' @ Path_toString dir) w
              in case Path_createDirectory dir (fs w1) of
                   None \<Rightarrow> None
                 | Some (created, fsys') \<Rightarrow>
                     (let w2 = (if created
                                then raftlog tg (''Created '' @ Path_toString dir) (w1\<lparr>fs := fsys'\<rparr>)
                                else w1\<lparr>fs := fsys'\<rparr>)
                      in Some (execute_command exec command (Some (Path_toString dir)) tg w2)))
         | None \<Rightarrow>
             Some (execute_command exec command None tg
                     (raftlog tg ''Running in the current working directory'' w)))"

section \<open>The dependency pipeline (\<open>getDependency\<close>, Raft.ts)\<close>

text \<open>
  \<open>download\<close>, \<open>build\<close> and \<open>install\<close> are methods of the \<open>Dependency\<close> interface:
  each returns a promise, and what happens behind it is up to the dependency and the
  outside world. The model keeps of every call that it was made and how its promise
  settled, and records both in a trace, next to the lines \<open>raftlog\<close> prints. A dependency
  is known by its number (its index in the list being built) and its name.
\<close>

datatype stage = Downloading | Building | Installing

datatype event =
    Logged string string
  | Called nat stage
  | Settled nat stage "error option"
  | ProjectBuildCalled

text \<open>The promise \<open>getDependency\<close> returns: pending in one of the three stages,
  fulfilled, or rejected.\<close>

datatype promise = Pending stage | Fulfilled | Rejected error

text \<open>
  The synchronous part of \<open>getDependency\<close>:
  \<^verbatim>\<open>
    raftlog(dependency.name, "Downloading");
    return dependency.download(project, build).then(...).then(...).then(...);
  \<close>
\<close>

definition getDependency :: "nat \<Rightarrow> string \<Rightarrow> event list \<times> promise" where
  "getDependency i nm = ([Logged nm ''Downloading'', Called i Downloading], Pending Downloading)"

text \<open>
  The chain of \<open>then\<close> handlers, run when the promise of the pending stage settles with
  \<open>r\<close> (\<open>None\<close>: fulfilled, \<open>Some e\<close>: rejected with \<open>e\<close>). A fulfilled download runs
  the first handler (log \<open>Building\<close>, call \<open>build\<close>), a fulfilled build the second, a
  fulfilled install the third (log \<open>Ready\<close>); a rejection skips the handlers that are left
  and rejects the chain. A settled chain has no stage waiting, and nothing happens.
  \<^verbatim>\<open>
    .then(() => { raftlog(dependency.name, "Building");
                  return dependency.build(project, build); })
    .then(() => { raftlog(dependency.name, "Installing");
                  return dependency.install(project, build); })
    .then(() => { raftlog(dependency.name, "Ready"); });
  \<close>
\<close>

fun getDependency_then :: "nat \<Rightarrow> string \<Rightarrow> error option \<Rightarrow> promise \<Rightarrow> event list \<times> promise" where
  "getDependency_then i nm (Some e) (Pending s) = ([Settled i s (Some e)], Rejected e)"
| "getDependency_then i nm None (Pending Downloading) =
     ([Settled i Downloading None, Logged nm ''Building'', Called i Building], Pending Building)"
| "getDependency_then i nm None (Pending Building) =
     ([Settled i Building None, Logged nm ''Installing'', Called i Installing], Pending Installing)"
| "getDependency_then i nm None (Pending Installing) =
     ([Settled i Installing None, Logged nm ''Ready''], Fulfilled)"
| "getDependency_then i nm r Fulfilled = ([], Fulfilled)"
| "getDependency_then i nm r (Rejected e) = ([], Rejected e)"

text \<open>One dependency on its own: \<open>getDependency\<close>, then the stage promises settling one
  after the other with the outcomes \<open>rs\<close>.\<close>

fun settle_all :: "nat \<Rightarrow> string \<Rightarrow> error option list \<Rightarrow> event list \<times> promise \<Rightarrow> event list \<times> promise" where
  "settle_all i nm [] st = st"
| "settle_all i nm (r # rs) st =
     settle_all i nm rs
       (fst st @ fst (getDependency_then i nm r (snd st)), snd (getDependency_then i nm r (snd st)))"

definition getDependency_run :: "nat \<Rightarrow> string \<Rightarrow> error option list \<Rightarrow> event list \<times> promise" where
  "getDependency_run i nm rs = settle_all i nm rs (getDependency i nm)"

section \<open>The build (\<open>build\<close>, part_000)\<close>

text \<open>
  \<^verbatim>\<open>
    return Promise.map(dependencies,
        (dependency) => Dependency.getDependency(project, buildSettings, dependency)
    ).then(() => project.build(buildSettings));
  \<close>
  The dependencies come from \<open>RaftFile.createDependency\<close>, and the mapper is the
  \<open>getDependency\<close> of \<open>Dependency.ts\<close>; neither file is among the sources. The build is
  modelled from the resolved dependencies on (their names, in order), and a pipeline is the
  \<open>getDependency\<close> of Raft.ts above.
  \<open>Promise.map\<close> calls the mapper on every dependency, so all pipelines are started, and
  returns a promise that is fulfilled once all of them are fulfilled and rejected as soon
  as one is rejected; the others are left alone. The \<open>then\<close> handler, which calls
  \<open>project.build\<close>, runs when that promise is fulfilled. Node runs one callback at a time:
  the state changes only when the promise of some pending stage settles.
\<close>

datatype mapped = MapPending | MapFulfilled | MapRejected error

record Orchestration =
  names :: "string list"
  pipelines :: "promise list"
  map_promise :: mapped
  events :: "event list"

text \<open>\<open>dependencies.length\<close> inside the template string.\<close>

fun decimal :: "nat \<Rightarrow> string" where
  "decimal n =
     (if n < 10 then [''0123456789'' ! n]
      else decimal (n div 10) @ [''0123456789'' ! (n mod 10)])"

text \<open>The \<open>then\<close> handler of \<open>Project.find\<close> in \<open>build\<close>, from the resolved dependencies
  on: the log line, then \<open>Promise.map\<close> starting every pipeline. An empty list fulfils the
  map at once.\<close>

definition build_dependencies :: "string list \<Rightarrow> Orchestration" where
  "build_dependencies nms =
     \<lparr>names = nms,
      pipelines = map (\<lambda>i. snd (getDependency i (nms ! i))) [0..<length nms],
      map_promise = (if nms = [] then MapFulfilled else MapPending),
      events =
        [Logged ''Project'' (''Getting '' @ decimal (length nms) @ '' for the project'')]
        @ concat (map (\<lambda>i. fst (getDependency i (nms ! i))) [0..<length nms])
        @ (if nms = [] then [ProjectBuildCalled] else [])\<rparr>"

text \<open>The promise of the pending stage of pipeline \<open>i\<close> settles with \<open>r\<close>: the pipeline
  moves on, the map's promise follows, and \<open>project.build\<close> is called if that fulfilled
  it. There is nothing to settle for a pipeline that is not pending.\<close>

definition map_follows :: "mapped \<Rightarrow> promise \<Rightarrow> promise list \<Rightarrow> mapped" where
  "map_follows m p ps =
     (case m of
        MapPending \<Rightarrow>
          (case p of
             Rejected e \<Rightarrow> MapRejected e
           | _ \<Rightarrow> (if list_all (\<lambda>q. q = Fulfilled) ps then MapFulfilled else MapPending))
      | _ \<Rightarrow> m)"

definition stage_settles :: "nat \<Rightarrow> error option \<Rightarrow> Orchestration \<Rightarrow> Orchestration" where
  "stage_settles i r st =
     (if i < length (pipelines st) then
        (case pipelines st ! i of
           Pending s \<Rightarrow>
             (let step = getDependency_then i (names st ! i) r (Pending s);
                  ps = (pipelines st)[i := snd step];
                  m = map_follows (map_promise st) (snd step) ps
              in st\<lparr>pipelines := ps,
                     map_promise := m,
                     events := events st @ fst step
                       @ (if map_promise st = MapPending \<and> m = MapFulfilled
                          then [ProjectBuildCalled] else [])\<rparr>)
         | Fulfilled \<Rightarrow> st
         | Rejected e \<Rightarrow> st)
      else st)"

text \<open>A run of the build: the stage promises settle in the order of the schedule.\<close>

definition build_run :: "string list \<Rightarrow> (nat \<times> error option) list \<Rightarrow> Orchestration" where
  "build_run nms schedule =
     foldl (\<lambda>st ir. stage_settles (fst ir) (snd ir) st) (build_dependencies nms) schedule"

section \<open>Auxiliary notions for the proofs\<close>

text \<open>
  Not part of the program: the shape of the result array of \<open>normalizeArray\<close> (a run of
  \<open>..\<close> followed by plain names), and \<open>path.normalize\<close> split into the array it computes
  and the string it renders from it.
\<close>

definition noslash :: "string \<Rightarrow> bool" where
  "noslash s = (CHR ''/'' \<notin> set s)"

definition plain :: "string \<Rightarrow> bool" where
  "plain s = (s \<noteq> [] \<and> s \<noteq> ''.'' \<and> s \<noteq> ''..'' \<and> noslash s)"

definition stack_shape :: "bool \<Rightarrow> string list \<Rightarrow> bool" where
  "stack_shape allow res =
     (\<exists>k rest. res = replicate k ''..'' @ rest \<and> list_all plain rest \<and> (allow \<or> k = 0))"

definition segments :: "string \<Rightarrow> string list" where
  "segments path = normalizeArray (\<not> isAbsolute path) [] (split_slash path)"

definition render :: "bool \<Rightarrow> bool \<Rightarrow> string list \<Rightarrow> string" where
  "render ab trail res =
     (let p = join_slash res;
          p1 = (if p = [] \<and> \<not> ab then ''.'' else p);
          p2 = (if p1 \<noteq> [] \<and> trail then p1 @ ''/'' else p1)
      in (if ab then ''/'' else []) @ p2)"

text \<open>\<open>a\<close> occurs in the trace, and \<open>b\<close> occurs after it.\<close>

definition before :: "event \<Rightarrow> event \<Rightarrow> event list \<Rightarrow> bool" where
  "before a b tr = (b \<in> set (tl (dropWhile (\<lambda>x. x \<noteq> a) tr)))"

text \<open>What every run of the build keeps true of its state.\<close>

definition barrier_inv :: "Orchestration \<Rightarrow> bool" where
  "barrier_inv st =
     (length (pipelines st) = length (names st)
      \<and> (ProjectBuildCalled \<in> set (events st) \<longleftrightarrow> map_promise st = MapFulfilled)
      \<and> (map_promise st = MapFulfilled \<longleftrightarrow> list_all (\<lambda>q. q = Fulfilled) (pipelines st))
      \<and> ((\<exists>e. map_promise st = MapRejected e) \<longrightarrow>
            (\<exists>k<length (pipelines st). \<exists>e. pipelines st ! k = Rejected e))
      \<and> (\<forall>i<length (pipelines st). pipelines st ! i = Fulfilled \<longrightarrow>
            Settled i Installing None \<in> set (events st))
      \<and> (ProjectBuildCalled \<in> set (events st) \<longrightarrow>
            (\<forall>i<length (pipelines st).
               before (Settled i Installing None) ProjectBuildCalled (events st))))"

section \<open>Proofs: Node's path module\<close>

lemma split_slash_nonempty: "split_slash s \<noteq> []"
  by (cases s) (auto split: list.splits)

lemma split_slash_append:
  "split_slash (xs @ CHR ''/'' # ys) = split_slash xs @ split_slash ys"
  by (induction xs) (auto simp: split_slash_nonempty split: list.splits)

lemma split_slash_noslash: "noslash s \<Longrightarrow> split_slash s = [s]"
  by (induction s) (auto simp: noslash_def)

lemma split_slash_all_noslash: "list_all noslash (split_slash s)"
proof (induction s)
  case Nil
  then show ?case by (simp add: noslash_def)
next
  case (Cons c s)
  then show ?case
    by (cases "split_slash s") (auto simp: noslash_def split_slash_nonempty)
qed

lemma normalizeArray_append:
  "normalizeArray a res (ps @ qs) = normalizeArray a (normalizeArray a res ps) qs"
  by (induction ps arbitrary: res) auto

lemma normalizeArray_plain:
  "list_all plain ps \<Longrightarrow> normalizeArray a res ps = res @ ps"
  by (induction ps arbitrary: res) (auto simp: plain_def)

lemma normalizeArray_dots:
  "a \<Longrightarrow> normalizeArray a (replicate j ''..'') (replicate k ''..'') = replicate (j + k) ''..''"
proof (induction k arbitrary: j)
  case 0
  then show ?case by simp
next
  case (Suc k)
  have snoc: "replicate j ''..'' @ [''..''] = replicate (Suc j) ''..''"
    by (simp add: replicate_append_same)
  have "\<not> (replicate j ''..'' \<noteq> [] \<and> last (replicate j ''..'') \<noteq> ''..'')"
    by (cases j) simp_all
  then have "normalizeArray a (replicate j ''..'') (replicate (Suc k) ''..'')
      = normalizeArray a (replicate j ''..'' @ [''..'']) (replicate k ''..'')"
    using Suc.prems by auto
  also have "\<dots> = replicate (Suc j + k) ''..''"
    unfolding snoc using Suc.IH[OF Suc.prems] .
  finally show ?case by simp
qed

lemma normalizeArray_shape_id:
  assumes "stack_shape a res"
  shows "normalizeArray a [] res = res"
proof -
  from assms obtain k rest where r: "res = replicate k ''..'' @ rest" "list_all plain rest" "a \<or> k = 0"
    by (auto simp: stack_shape_def)
  show ?thesis
  proof (cases "k = 0")
    case True
    with r show ?thesis by (simp add: normalizeArray_plain)
  next
    case False
    with r have a by simp
    then have "normalizeArray a [] (replicate k ''..'') = replicate k ''..''"
      using normalizeArray_dots[of a 0 k] by simp
    with r show ?thesis by (simp add: normalizeArray_append normalizeArray_plain)
  qed
qed

lemma stack_shape_step:
  "stack_shape a res \<Longrightarrow> list_all noslash ps \<Longrightarrow> stack_shape a (normalizeArray a res ps)"
proof (induction ps arbitrary: res)
  case Nil
  then show ?case by simp
next
  case (Cons p ps)
  from Cons.prems obtain k rest where r: "res = replicate k ''..'' @ rest" "list_all plain rest" "a \<or> k = 0"
    by (auto simp: stack_shape_def)
  from Cons.prems have ps: "list_all noslash ps" and p: "noslash p" by auto
  show ?case
  proof (cases "p = [] \<or> p = ''.''")
    case True
    then show ?thesis using Cons.IH[OF Cons.prems(1) ps] by auto
  next
    case False
    note nonempty = this
    show ?thesis
    proof (cases "p = ''..''")
      case True
      show ?thesis
      proof (cases "rest = []")
        case True
        have "stack_shape a (replicate (Suc k) ''..'')" if a
          unfolding stack_shape_def using that by (intro exI[of _ "Suc k"] exI[of _ "[]"]) simp
        moreover have "replicate k ''..'' @ [''..''] = replicate (Suc k) ''..''"
          by (simp add: replicate_append_same)
        ultimately show ?thesis
          using \<open>p = ''..''\<close> True r Cons.IH[OF _ ps] Cons.prems(1)
          by (cases k) (auto simp del: replicate_Suc)
      next
        case False
        then have l: "last res \<noteq> ''..''" "res \<noteq> []" using r by (auto simp: plain_def list_all_iff)
        have "butlast res = replicate k ''..'' @ butlast rest" using r False by (simp add: butlast_append)
        moreover have "list_all plain (butlast rest)" using r by (auto simp: list_all_iff dest: in_set_butlastD)
        ultimately have "stack_shape a (butlast res)" using r unfolding stack_shape_def by blast
        then show ?thesis using \<open>p = ''..''\<close> l Cons.IH[OF _ ps] by simp
      qed
    next
      case False
      then have "plain p" using nonempty p by (simp add: plain_def)
      then have "stack_shape a (res @ [p])" using r unfolding stack_shape_def
        by (intro exI[of _ k] exI[of _ "rest @ [p]"]) simp
      then show ?thesis using False nonempty Cons.IH[OF _ ps] by simp
    qed
  qed
qed

lemma normalize_render:
  "npath_normalize path = render (isAbsolute path) (trailingSlash path) (segments path)"
  by (simp add: npath_normalize_def render_def segments_def)

lemma stack_shape_Nil: "stack_shape a []"
  by (simp add: stack_shape_def)

lemma stack_shape_segments: "stack_shape (\<not> isAbsolute path) (segments path)"
  unfolding segments_def
  by (rule stack_shape_step[OF stack_shape_Nil split_slash_all_noslash])

lemma stack_shape_elems:
  "stack_shape a res \<Longrightarrow> list_all (\<lambda>s. s \<noteq> [] \<and> noslash s) res"
proof -
  assume "stack_shape a res"
  then obtain k rest where r: "res = replicate k ''..'' @ rest" "list_all plain rest"
    unfolding stack_shape_def by blast
  have "list_all (\<lambda>s. s \<noteq> [] \<and> noslash s) (replicate k ''..'')"
    by (simp add: list_all_iff noslash_def)
  moreover have "list_all (\<lambda>s. s \<noteq> [] \<and> noslash s) rest"
    using r(2) by (simp add: list_all_iff plain_def)
  ultimately show ?thesis using r(1) by simp
qed

lemma split_join_slash:
  "list_all noslash ss \<Longrightarrow> ss \<noteq> [] \<Longrightarrow> split_slash (join_slash ss) = ss"
proof (induction ss rule: join_slash.induct)
  case 1
  then show ?case by simp
next
  case (2 s)
  then show ?case by (simp add: split_slash_noslash)
next
  case (3 s t ss)
  then show ?case by (simp add: split_slash_append split_slash_noslash)
qed

lemma join_slash_ends:
  "list_all (\<lambda>s. s \<noteq> [] \<and> noslash s) ss \<Longrightarrow> ss \<noteq> [] \<Longrightarrow>
     join_slash ss \<noteq> [] \<and> hd (join_slash ss) \<noteq> CHR ''/'' \<and> last (join_slash ss) \<noteq> CHR ''/''"
proof (induction ss rule: join_slash.induct)
  case 1
  then show ?case by simp
next
  case (2 s)
  then have s: "s \<noteq> []" "CHR ''/'' \<notin> set s" by (simp_all add: noslash_def)
  then have "hd s \<in> set s" "last s \<in> set s" by simp_all
  with s show ?case by (metis join_slash.simps(2))
next
  case (3 s t ss)
  then have s: "s \<noteq> []" "CHR ''/'' \<notin> set s" by (simp_all add: noslash_def)
  then have "hd s \<in> set s" by simp
  then have h: "hd s \<noteq> CHR ''/''" using s by metis
  have "join_slash (t # ss) \<noteq> [] \<and> last (join_slash (t # ss)) \<noteq> CHR ''/''"
    using 3 by simp
  then show ?case using s h by simp
qed

lemma render_nonempty: "render ab trail res \<noteq> []"
  by (auto simp: render_def Let_def)

lemma isAbsolute_render:
  "stack_shape a res \<Longrightarrow> isAbsolute (render ab trail res) = ab"
proof (cases "res = []")
  case True
  then show ?thesis by (simp add: render_def isAbsolute_def Let_def)
next
  case False
  assume "stack_shape a res"
  from join_slash_ends[OF stack_shape_elems[OF this] False]
  show ?thesis by (auto simp: render_def isAbsolute_def Let_def)
qed

lemma resplit_render:
  assumes "stack_shape a res" "ab = (\<not> a)"
  shows "normalizeArray a [] (split_slash (render ab trail res)) = res"
proof (cases "res = []")
  case True
  then show ?thesis using assms(2) by (simp add: render_def Let_def)
next
  case False
  have ns: "list_all noslash res"
    using stack_shape_elems[OF assms(1)] by (simp add: list_all_iff)
  have sp: "split_slash (join_slash res) = res"
    by (rule split_join_slash[OF ns False])
  have sp2: "split_slash (join_slash res @ ''/'') = res @ [[]]"
    using split_slash_append[of "join_slash res" "[]"] sp by simp
  have sp3: "split_slash (CHR ''/'' # ys) = [] # split_slash ys" for ys
    by simp
  have id: "normalizeArray a [] res = res"
    by (rule normalizeArray_shape_id[OF assms(1)])
  have ne: "join_slash res \<noteq> []"
    using join_slash_ends[OF stack_shape_elems[OF assms(1)] False] by simp
  show ?thesis
    using ne id sp sp2 by (simp add: render_def Let_def normalizeArray_append del: split_slash.simps(2) add: sp3)
qed

lemma isAbsolute_normalize: "isAbsolute (npath_normalize x) = isAbsolute x"
  unfolding normalize_render by (rule isAbsolute_render[OF stack_shape_segments])

lemma normalize_nonempty: "npath_normalize x \<noteq> []"
  unfolding normalize_render by (rule render_nonempty)

lemma segments_normalize: "segments (npath_normalize x) = segments x"
proof -
  have "segments (npath_normalize x) = normalizeArray (\<not> isAbsolute x) [] (split_slash (npath_normalize x))"
    by (simp add: segments_def isAbsolute_normalize)
  also have "\<dots> = segments x"
    unfolding normalize_render
    by (rule resplit_render[OF stack_shape_segments]) simp
  finally show ?thesis .
qed

lemma segments_append:
  "x \<noteq> [] \<Longrightarrow> segments (x @ CHR ''/'' # c)
     = normalizeArray (\<not> isAbsolute x) (segments x) (split_slash c)"
  by (simp add: segments_def isAbsolute_def split_slash_append normalizeArray_append)

lemma normalize_append_normalize:
  assumes "x \<noteq> []" "c \<noteq> []"
  shows "npath_normalize (npath_normalize x @ ''/'' @ c) = npath_normalize (x @ ''/'' @ c)"
proof -
  have a: "isAbsolute (npath_normalize x @ ''/'' @ c) = isAbsolute (x @ ''/'' @ c)"
    using assms isAbsolute_normalize[of x] normalize_nonempty[of x]
    by (simp add: isAbsolute_def)
  have t: "trailingSlash (npath_normalize x @ ''/'' @ c) = trailingSlash (x @ ''/'' @ c)"
    using assms by (simp add: trailingSlash_def)
  have s: "segments (npath_normalize x @ ''/'' @ c) = segments (x @ ''/'' @ c)"
    using assms normalize_nonempty[of x]
    by (simp add: segments_append segments_normalize isAbsolute_normalize)
  show ?thesis
    by (simp only: normalize_render[of "npath_normalize x @ ''/'' @ c"]
        normalize_render[of "x @ ''/'' @ c"] a t s)
qed

lemma normalize_idem: "npath_normalize (npath_normalize x) = npath_normalize x"
proof -
  let ?S = "segments x"
  have sh: "stack_shape (\<not> isAbsolute x) ?S" by (rule stack_shape_segments)
  have "render (isAbsolute x) (trailingSlash (npath_normalize x)) ?S
      = render (isAbsolute x) (trailingSlash x) ?S"
  proof (cases "?S = []")
    case True
    then show ?thesis
      by (cases "isAbsolute x"; cases "trailingSlash x")
         (simp_all add: normalize_render render_def trailingSlash_def Let_def)
  next
    case False
    from join_slash_ends[OF stack_shape_elems[OF sh] False]
    have "trailingSlash (npath_normalize x) = trailingSlash x"
      by (auto simp: normalize_render render_def trailingSlash_def Let_def)
    then show ?thesis by simp
  qed
  then show ?thesis
    by (simp add: normalize_render[of "npath_normalize x"] isAbsolute_normalize segments_normalize
        normalize_render[of x, symmetric])
qed

lemma normalize_dot_slash:
  assumes "c \<noteq> []" "\<not> isAbsolute c"
  shows "npath_normalize (''./'' @ c) = npath_normalize c"
  using assms
  by (simp add: npath_normalize_def isAbsolute_def trailingSlash_def split_slash_nonempty)

lemma join_segment_Nil: "join_segment [] s = s"
  by (simp add: join_segment_def)

text \<open>The definitions that evaluate a path operation on a concrete string.\<close>

lemmas path_eval =
  Path_append_def Path_toString_def npath_join_def join_segment_def npath_normalize_def
  isAbsolute_def trailingSlash_def Path_parent_def npath_dirname_def Path_isRoot_def
  npath_parse_def

section \<open>Proofs: derived directories\<close>

lemma DEPENDENCY_BUILD_DIR_eq: "DEPENDENCY_BUILD_DIR = ''Raft/libs/build''"
  by (simp add: DEPENDENCY_BUILD_DIR_def DEPENDENCY_DIR_def RAFT_DIR_def Path_append_def
      Path_toString_def npath_join_def join_segment_def npath_normalize_def isAbsolute_def
      trailingSlash_def)

lemma DEPENDENCY_INSTALL_DIR_eq: "DEPENDENCY_INSTALL_DIR = ''Raft/libs/install''"
  by (simp add: DEPENDENCY_INSTALL_DIR_def DEPENDENCY_DIR_def RAFT_DIR_def Path_append_def
      Path_toString_def npath_join_def join_segment_def npath_normalize_def isAbsolute_def
      trailingSlash_def)

lemma join_slash_append:
  "join_slash (ss @ t # ts) = (if ss = [] then [] else join_slash ss @ ''/'') @ join_slash (t # ts)"
  by (induction ss rule: join_slash.induct) auto

lemma plain_elem: "plain s \<Longrightarrow> s \<noteq> [] \<and> noslash s"
  by (simp add: plain_def)

lemma normalize_append_plain:
  assumes y: "y \<noteq> []" and ss: "list_all plain ss" "ss \<noteq> []"
  shows "npath_normalize (y @ ''/'' @ join_slash ss)
       = (if isAbsolute y then ''/'' else []) @ join_slash (segments y @ ss)"
proof -
  let ?z = "y @ ''/'' @ join_slash ss"
  have el: "list_all (\<lambda>s. s \<noteq> [] \<and> noslash s) ss"
    using ss(1) by (simp add: list_all_iff plain_def)
  then have ns: "list_all noslash ss" by (simp add: list_all_iff)
  have je: "join_slash ss \<noteq> []" "last (join_slash ss) \<noteq> CHR ''/''"
    using join_slash_ends[OF el ss(2)] by simp_all
  have a: "isAbsolute ?z = isAbsolute y" using y by (simp add: isAbsolute_def)
  have t: "\<not> trailingSlash ?z" using je by (simp add: trailingSlash_def)
  have s: "segments ?z = segments y @ ss"
    using y ss(1) by (simp add: segments_append split_join_slash[OF ns ss(2)] normalizeArray_plain)
  have el2: "list_all (\<lambda>s. s \<noteq> [] \<and> noslash s) (segments y @ ss)"
    using stack_shape_elems[OF stack_shape_segments[of y]] el by simp
  have "join_slash (segments y @ ss) \<noteq> []"
    using join_slash_ends[OF el2] ss(2) by simp
  then show ?thesis
    unfolding normalize_render[of ?z] a s using t by (simp add: render_def)
qed

lemma slash_split_unique:
  "noslash u \<Longrightarrow> noslash u' \<Longrightarrow> u @ CHR ''/'' # v = u' @ CHR ''/'' # v' \<Longrightarrow> u = u' \<and> v = v'"
proof (induction u arbitrary: u')
  case Nil
  then show ?case by (cases u') (auto simp: noslash_def)
next
  case (Cons c u)
  then show ?case by (cases u') (auto simp: noslash_def)
qed

lemma join_segment_nonempty:
  "y \<noteq> [] \<Longrightarrow> s \<noteq> [] \<Longrightarrow> join_segment y s = y @ ''/'' @ s"
  by (simp add: join_segment_def)

lemma foldl_join_segment:
  "y \<noteq> [] \<Longrightarrow> list_all plain ss \<Longrightarrow> ss \<noteq> [] \<Longrightarrow>
     foldl join_segment y ss = y @ ''/'' @ join_slash ss"
proof (induction ss arbitrary: y)
  case Nil
  then show ?case by simp
next
  case (Cons s ss)
  then have s: "s \<noteq> []" by (simp add: plain_def)
  have step: "foldl join_segment y (s # ss) = foldl join_segment (y @ ''/'' @ s) ss"
    by (simp add: join_segment_nonempty[OF Cons.prems(1) s])
  show ?case
  proof (cases ss)
    case Nil
    then show ?thesis unfolding step by simp
  next
    case (Cons t ts)
    have "foldl join_segment (y @ ''/'' @ s) ss = (y @ ''/'' @ s) @ ''/'' @ join_slash ss"
      using Cons.IH[of "y @ ''/'' @ s"] Cons.prems Cons by simp
    then show ?thesis unfolding step using Cons by simp
  qed
qed

lemma map_Path_toString: "map Path_toString ss = ss"
  by (induction ss) (simp_all add: Path_toString_def)

lemma append_plain_segments:
  assumes "d \<noteq> []" "list_all plain ss" "ss \<noteq> []"
  shows "Path_append r (d # ss)
       = (if isAbsolute (join_segment r d) then ''/'' else [])
         @ (if segments (join_segment r d) = [] then [] else join_slash (segments (join_segment r d)) @ ''/'')
         @ join_slash ss"
proof -
  let ?y = "join_segment r d"
  have y: "?y \<noteq> []" using assms(1) by (simp add: join_segment_def)
  obtain t ts where tt: "ss = t # ts" using assms(3) by (cases ss) auto
  have "Path_append r (d # ss) = npath_normalize (foldl join_segment ?y ss)"
    by (simp add: Path_append_def map_Path_toString Path_toString_def npath_join_def
        join_segment_Nil)
  also have "\<dots> = npath_normalize (?y @ ''/'' @ join_slash ss)"
    by (simp only: foldl_join_segment[OF y assms(2,3)])
  also have "\<dots> = (if isAbsolute ?y then ''/'' else []) @ join_slash (segments ?y @ ss)"
    by (rule normalize_append_plain[OF y assms(2,3)])
  finally show ?thesis unfolding tt join_slash_append by simp
qed

section \<open>Proofs: the upward search\<close>

lemma scan_back_Some:
  "scan_back path lo n m = Some i \<Longrightarrow> lo \<le> i \<and> i < n"
  by (induction n arbitrary: m) (auto split: if_splits simp: less_Suc_eq)

lemma parsed_root_empty: "parsed_root (npath_parse p) = [] \<longleftrightarrow> \<not> isAbsolute p"
  by (simp add: npath_parse_def isAbsolute_def)

lemma isRoot_isAbsolute: "Path_isRoot p \<Longrightarrow> isAbsolute p"
  by (auto simp: Path_isRoot_def Let_def parsed_root_empty)

lemma isAbsolute_take: "0 < e \<Longrightarrow> isAbsolute (take e p) = isAbsolute p"
  by (cases p; cases e) (simp_all add: isAbsolute_def)

lemma parent_relative: "\<not> isAbsolute p \<Longrightarrow> \<not> isAbsolute (Path_parent p)"
  by (auto simp: Path_parent_def npath_dirname_def isAbsolute_take isAbsolute_def[of "''.''"]
      split: option.splits dest!: scan_back_Some)

lemma parent_relative_shorter:
  "\<not> isAbsolute p \<Longrightarrow> Path_parent p = ''.'' \<or> length (Path_parent p) < length p"
  by (auto simp: Path_parent_def npath_dirname_def split: option.splits dest!: scan_back_Some)

lemma parent_dot: "Path_parent ''.'' = ''.''"
  by (simp add: Path_parent_def npath_dirname_def isAbsolute_def)

lemma parent_absolute:
  assumes "isAbsolute p" "\<not> Path_isRoot p"
  shows "isAbsolute (Path_parent p) \<and> length (Path_parent p) < length p"
proof -
  from assms(1) obtain cs where p: "p = CHR ''/'' # cs"
    by (cases p) (auto simp: isAbsolute_def)
  from assms obtain i where i: "scan_back p 1 (length p) True = Some i" "take i p \<noteq> ''/''"
    by (auto simp: Path_isRoot_def npath_parse_def Let_def isAbsolute_def split: option.splits if_splits)
  from scan_back_Some[OF i(1)] have b: "1 \<le> i" "i < length p" by simp_all
  have "i \<noteq> 1" using i(2) p by auto
  with b have "npath_dirname p = take i p" using i(1) p by (simp add: npath_dirname_def)
  then show ?thesis using b assms(1) by (simp add: Path_parent_def isAbsolute_take)
qed

lemma funpow_parent_relative: "\<not> isAbsolute p \<Longrightarrow> \<not> isAbsolute ((Path_parent ^^ n) p)"
  by (induction n) (simp_all add: parent_relative)

lemma relative_reaches_dot: "\<not> isAbsolute p \<Longrightarrow> \<exists>n. (Path_parent ^^ n) p = ''.''"
proof (induction "length p" arbitrary: p rule: less_induct)
  case less
  from parent_relative_shorter[OF less.prems]
  show ?case
  proof
    assume "Path_parent p = ''.''"
    then have "(Path_parent ^^ 1) p = ''.''" by simp
    then show ?thesis by blast
  next
    assume "length (Path_parent p) < length p"
    from less.hyps[OF this parent_relative[OF less.prems]]
    obtain n where "(Path_parent ^^ n) (Path_parent p) = ''.''" by blast
    then have "(Path_parent ^^ Suc n) p = ''.''" by (simp add: funpow_swap1)
    then show ?thesis by blast
  qed
qed

lemma funpow_parent_dot: "(Path_parent ^^ k) ''.'' = ''.''"
  by (induction k) (simp_all add: parent_dot)

lemma relative_stays_dot:
  assumes "\<not> isAbsolute p"
  shows "\<exists>n. \<forall>m\<ge>n. (Path_parent ^^ m) p = ''.''"
proof -
  from relative_reaches_dot[OF assms] obtain n where n: "(Path_parent ^^ n) p = ''.''" by blast
  have "(Path_parent ^^ m) p = ''.''" if "n \<le> m" for m
  proof -
    from that obtain k where "m = k + n" by (metis le_add_diff_inverse2)
    then show ?thesis using n by (simp add: funpow_add funpow_parent_dot)
  qed
  then show ?thesis by blast
qed

lemma find_paths_Some_absolute:
  assumes "find_paths paths = Some cs"
  shows "isAbsolute (last paths)"
proof (rule find_paths.raw_induct[where P = "\<lambda>ps _. isAbsolute (last ps)", OF _ assms])
  fix f ps r
  assume IH: "\<And>x y. f x = Some y \<Longrightarrow> isAbsolute (last x)"
    and eq: "(if Path_isRoot (last ps) then Some ps else f (ps @ [Path_parent (last ps)])) = Some r"
  show "isAbsolute (last ps)"
  proof (cases "Path_isRoot (last ps)")
    case True
    then show ?thesis by (rule isRoot_isAbsolute)
  next
    case False
    with eq have "f (ps @ [Path_parent (last ps)]) = Some r" by simp
    from IH[OF this] have "isAbsolute (Path_parent (last ps))" by simp
    then show ?thesis using parent_relative[of "last ps"] by auto
  qed
qed

lemma find_paths_relative: "\<not> isAbsolute p \<Longrightarrow> find_paths [p] = None"
  using find_paths_Some_absolute[of "[p]"] by (cases "find_paths [p]") auto

lemma find_paths_absolute:
  "isAbsolute (last paths) \<Longrightarrow> \<exists>cs. find_paths paths = Some cs"
proof (induction "length (last paths)" arbitrary: paths rule: less_induct)
  case less
  show ?case
  proof (cases "Path_isRoot (last paths)")
    case True
    then show ?thesis by (subst find_paths.simps) simp
  next
    case False
    from parent_absolute[OF less.prems False]
    have "\<exists>cs. find_paths (paths @ [Path_parent (last paths)]) = Some cs"
      by (intro less.hyps) simp_all
    then show ?thesis using False by (subst find_paths.simps) simp
  qed
qed

lemma find_paths_chain:
  "Path_isRoot ((Path_parent ^^ n) (last ps)) \<Longrightarrow>
   \<forall>k<n. \<not> Path_isRoot ((Path_parent ^^ k) (last ps)) \<Longrightarrow>
   find_paths ps = Some (ps @ map (\<lambda>k. (Path_parent ^^ k) (last ps)) [1..<Suc n])"
proof (induction n arbitrary: ps)
  case 0
  then show ?case by (subst find_paths.simps) simp
next
  case (Suc n)
  let ?ps = "ps @ [Path_parent (last ps)]"
  from Suc.prems(2) have nr: "\<not> Path_isRoot (last ps)" by (auto dest: spec[of _ 0])
  have r: "Path_isRoot ((Path_parent ^^ n) (last ?ps))"
    using Suc.prems(1) by (simp add: funpow_swap1)
  have f: "\<forall>k<n. \<not> Path_isRoot ((Path_parent ^^ k) (last ?ps))"
  proof (intro allI impI)
    fix k assume "k < n"
    then have "\<not> Path_isRoot ((Path_parent ^^ Suc k) (last ps))" using Suc.prems(2) by blast
    then show "\<not> Path_isRoot ((Path_parent ^^ k) (last ?ps))" by (simp add: funpow_swap1)
  qed
  have m: "map (\<lambda>k. (Path_parent ^^ k) (last ps)) [1..<Suc (Suc n)]
      = Path_parent (last ps) # map (\<lambda>k. (Path_parent ^^ k) (Path_parent (last ps))) [1..<Suc n]"
  proof -
    have "[1..<Suc (Suc n)] = 1 # map Suc [1..<Suc n]"
      by (simp add: upt_conv_Cons map_Suc_upt del: upt_Suc)
    then show ?thesis by (simp add: funpow_swap1 comp_def del: upt_Suc)
  qed
  have "find_paths ps = find_paths ?ps" using nr by (subst find_paths.simps) simp
  also have "\<dots> = Some (?ps @ map (\<lambda>k. (Path_parent ^^ k) (last ?ps)) [1..<Suc n])"
    by (rule Suc.IH[OF r f])
  finally show ?case unfolding m by simp
qed

lemma find_paths_start:
  assumes "Path_isRoot ((Path_parent ^^ n) P)" "\<forall>k<n. \<not> Path_isRoot ((Path_parent ^^ k) P)"
  shows "find_paths [P] = Some (map (\<lambda>k. (Path_parent ^^ k) P) [0..<Suc n])"
proof -
  have "[0..<Suc n] = 0 # [1..<Suc n]" by (simp add: upt_conv_Cons del: upt_Suc)
  then show ?thesis using find_paths_chain[of n "[P]"] assms by (simp del: upt_Suc)
qed

lemma first_filter_nearest:
  assumes "m \<le> n" "Q (f m)" "\<forall>k<m. \<not> Q (f k)"
  shows "first (filter Q (map f [0..<Suc n])) = Some (f m)"
proof -
  have "[0..<Suc n] = [0..<m] @ [m..<Suc n]"
    using upt_add_eq_append[of 0 m "Suc n - m"] assms(1) by simp
  moreover have "[m..<Suc n] = m # [Suc m..<Suc n]"
    using assms(1) by (simp add: upt_conv_Cons del: upt_Suc)
  ultimately have "[0..<Suc n] = [0..<m] @ m # [Suc m..<Suc n]" by simp
  moreover have "filter Q (map f [0..<m]) = []" using assms(3) by (simp add: filter_empty_conv)
  ultimately show ?thesis using assms(2) by (simp add: first_def del: upt_Suc)
qed

lemma first_filter_none:
  assumes "\<forall>k\<le>n. \<not> Q (f k)"
  shows "first (filter Q (map f [0..<Suc n])) = None"
proof -
  have "filter Q (map f [0..<Suc n]) = []" using assms by (simp add: filter_empty_conv less_Suc_eq_le del: upt_Suc)
  then show ?thesis by (simp add: first_def)
qed

lemma Project_load_root: "Project_load json prj w = (Inr prj', w') \<Longrightarrow> root prj' = root prj"
  by (auto simp: Project_load_def Let_def new_array_def split: sum.splits option.splits)

section \<open>Proofs: the pipeline and the build\<close>

lemma settle_all_settled:
  "p = Fulfilled \<or> (\<exists>e. p = Rejected e) \<Longrightarrow> settle_all i nm rs (tr, p) = (tr, p)"
  by (induction rs) auto

lemma getDependency_run_Nil:
  "getDependency_run i nm [] =
     ([Logged nm ''Downloading'', Called i Downloading], Pending Downloading)"
  by (simp add: getDependency_run_def getDependency_def)

lemma getDependency_run_download_rejected:
  "getDependency_run i nm (Some e # rest) =
     ([Logged nm ''Downloading'', Called i Downloading,
       Settled i Downloading (Some e)], Rejected e)"
  by (simp add: getDependency_run_def getDependency_def settle_all_settled)

lemma getDependency_run_downloaded:
  "getDependency_run i nm [None] =
     ([Logged nm ''Downloading'', Called i Downloading,
       Settled i Downloading None, Logged nm ''Building'', Called i Building], Pending Building)"
  by (simp add: getDependency_run_def getDependency_def)

lemma getDependency_run_build_rejected:
  "getDependency_run i nm (None # Some e # rest) =
     ([Logged nm ''Downloading'', Called i Downloading,
       Settled i Downloading None, Logged nm ''Building'', Called i Building,
       Settled i Building (Some e)], Rejected e)"
  by (simp add: getDependency_run_def getDependency_def settle_all_settled)

lemma getDependency_run_built:
  "getDependency_run i nm [None, None] =
     ([Logged nm ''Downloading'', Called i Downloading,
       Settled i Downloading None, Logged nm ''Building'', Called i Building,
       Settled i Building None, Logged nm ''Installing'', Called i Installing],
      Pending Installing)"
  by (simp add: getDependency_run_def getDependency_def)

lemma getDependency_run_install_rejected:
  "getDependency_run i nm (None # None # Some e # rest) =
     ([Logged nm ''Downloading'', Called i Downloading,
       Settled i Downloading None, Logged nm ''Building'', Called i Building,
       Settled i Building None, Logged nm ''Installing'', Called i Installing,
       Settled i Installing (Some e)], Rejected e)"
  by (simp add: getDependency_run_def getDependency_def settle_all_settled)

lemma getDependency_run_installed:
  "getDependency_run i nm (None # None # None # rest) =
     ([Logged nm ''Downloading'', Called i Downloading,
       Settled i Downloading None, Logged nm ''Building'', Called i Building,
       Settled i Building None, Logged nm ''Installing'', Called i Installing,
       Settled i Installing None, Logged nm ''Ready''], Fulfilled)"
  by (simp add: getDependency_run_def getDependency_def settle_all_settled)

lemma outcomes_shape:
  fixes rs :: "error option list"
  obtains "rs = []"
  | e rest where "rs = Some e # rest"
  | "rs = [None]"
  | e rest where "rs = None # Some e # rest"
  | "rs = [None, None]"
  | e rest where "rs = None # None # Some e # rest"
  | rest where "rs = None # None # None # rest"
proof (cases rs)
  case Nil
  then show ?thesis using that by blast
next
  case c1: (Cons r1 rs1)
  show ?thesis
  proof (cases r1)
    case (Some e)
    then show ?thesis using c1 that by blast
  next
    case n1: None
    show ?thesis
    proof (cases rs1)
      case Nil
      then show ?thesis using c1 n1 that by blast
    next
      case c2: (Cons r2 rs2)
      show ?thesis
      proof (cases r2)
        case (Some e)
        then show ?thesis using c1 n1 c2 that by blast
      next
        case n2: None
        show ?thesis
        proof (cases rs2)
          case Nil
          then show ?thesis using c1 n1 c2 n2 that by blast
        next
          case c3: (Cons r3 rs3)
          show ?thesis
          proof (cases r3)
            case (Some e)
            then show ?thesis using c1 n1 c2 n2 c3 that by blast
          next
            case None
            then show ?thesis using c1 n1 c2 n2 c3 that by blast
          qed
        qed
      qed
    qed
  qed
qed

lemma before_append: "before a b xs \<Longrightarrow> before a b (xs @ ys)"
proof -
  assume h: "before a b xs"
  have ne: "dropWhile (\<lambda>x. x \<noteq> a) xs \<noteq> []"
  proof
    assume "dropWhile (\<lambda>x. x \<noteq> a) xs = []"
    with h show False by (simp add: before_def)
  qed
  then have "\<exists>x\<in>set xs. \<not> x \<noteq> a" by (simp add: dropWhile_eq_Nil_conv)
  then have "dropWhile (\<lambda>x. x \<noteq> a) (xs @ ys) = dropWhile (\<lambda>x. x \<noteq> a) xs @ ys"
    by (auto simp: dropWhile_append1)
  then show ?thesis using h ne by (simp add: before_def)
qed

lemma before_snoc: "a \<in> set xs \<Longrightarrow> before a b (xs @ [b])"
proof -
  assume a: "a \<in> set xs"
  then have ne: "dropWhile (\<lambda>x. x \<noteq> a) xs \<noteq> []" by (auto simp: dropWhile_eq_Nil_conv)
  have "dropWhile (\<lambda>x. x \<noteq> a) (xs @ [b]) = dropWhile (\<lambda>x. x \<noteq> a) xs @ [b]"
    using a by (auto simp: dropWhile_append1)
  then show ?thesis using ne by (simp add: before_def)
qed

lemma getDependency_then_cases:
  "getDependency_then i nm r (Pending s) = (ev, p) \<Longrightarrow>
     (\<exists>e. r = Some e \<and> p = Rejected e \<and> ev = [Settled i s (Some e)])
   \<or> (r = None \<and> s = Downloading \<and> p = Pending Building
        \<and> ev = [Settled i Downloading None, Logged nm ''Building'', Called i Building])
   \<or> (r = None \<and> s = Building \<and> p = Pending Installing
        \<and> ev = [Settled i Building None, Logged nm ''Installing'', Called i Installing])
   \<or> (r = None \<and> s = Installing \<and> p = Fulfilled
        \<and> ev = [Settled i Installing None, Logged nm ''Ready''])"
  by (cases r; cases s) auto

lemma stage_settles_not_pending:
  "\<not> (i < length (pipelines st) \<and> (\<exists>s. pipelines st ! i = Pending s)) \<Longrightarrow> stage_settles i r st = st"
  by (auto simp: stage_settles_def split: promise.splits)

lemma stage_settles_pending:
  assumes "i < length (pipelines st)" "pipelines st ! i = Pending s"
    and "getDependency_then i (names st ! i) r (Pending s) = (ev, p)"
  shows "stage_settles i r st =
     st\<lparr>pipelines := (pipelines st)[i := p],
        map_promise := map_follows (map_promise st) p ((pipelines st)[i := p]),
        events := events st @ ev
          @ (if map_promise st = MapPending
                \<and> map_follows (map_promise st) p ((pipelines st)[i := p]) = MapFulfilled
             then [ProjectBuildCalled] else [])\<rparr>"
  using assms by (simp add: stage_settles_def Let_def)

lemma barrier_inv_start: "barrier_inv (build_dependencies nms)"
  by (auto simp: barrier_inv_def build_dependencies_def getDependency_def list_all_length)

lemma barrier_inv_step:
  assumes inv: "barrier_inv st"
  shows "barrier_inv (stage_settles i r st)"
proof (cases "i < length (pipelines st) \<and> (\<exists>s. pipelines st ! i = Pending s)")
  case False
  then show ?thesis using inv by (simp add: stage_settles_not_pending)
next
  case True
  then obtain s where i: "i < length (pipelines st)" and pend: "pipelines st ! i = Pending s"
    by blast
  obtain ev p where step: "getDependency_then i (names st ! i) r (Pending s) = (ev, p)"
    by (cases "getDependency_then i (names st ! i) r (Pending s)")
  note cases = getDependency_then_cases[OF step]
  let ?ps = "(pipelines st)[i := p]"
  let ?m = "map_follows (map_promise st) p ?ps"
  let ?fire = "map_promise st = MapPending \<and> ?m = MapFulfilled"
  let ?ev = "events st @ ev @ (if ?fire then [ProjectBuildCalled] else [])"
  have eq: "stage_settles i r st = st\<lparr>pipelines := ?ps, map_promise := ?m, events := ?ev\<rparr>"
    by (rule stage_settles_pending[OF i pend step])
  from inv[unfolded barrier_inv_def] have len: "length (pipelines st) = length (names st)"
    and called: "ProjectBuildCalled \<in> set (events st) \<longleftrightarrow> map_promise st = MapFulfilled"
    and full: "map_promise st = MapFulfilled \<longleftrightarrow> list_all (\<lambda>q. q = Fulfilled) (pipelines st)"
    and rej: "(\<exists>e. map_promise st = MapRejected e) \<longrightarrow>
            (\<exists>k<length (pipelines st). \<exists>e. pipelines st ! k = Rejected e)"
    and inst: "\<forall>j<length (pipelines st). pipelines st ! j = Fulfilled \<longrightarrow>
            Settled j Installing None \<in> set (events st)"
    by blast+
  have notF: "map_promise st \<noteq> MapFulfilled"
    using full i pend by (auto simp: list_all_length)
  then have notC: "ProjectBuildCalled \<notin> set (events st)" using called by simp
  have notE: "ProjectBuildCalled \<notin> set ev" using cases by auto
  have pi: "?ps ! i = p" using i by simp
  have pk: "?ps ! k = pipelines st ! k" if "k \<noteq> i" for k using that by simp
  have mF: "?m = MapFulfilled \<longleftrightarrow> list_all (\<lambda>q. q = Fulfilled) ?ps"
  proof (cases "map_promise st")
    case MapPending
    show ?thesis
    proof (cases p)
      case (Rejected e)
      then have "?ps ! i \<noteq> Fulfilled" using pi by simp
      then have "\<not> list_all (\<lambda>q. q = Fulfilled) ?ps" using i by (auto simp: list_all_length)
      then show ?thesis using MapPending Rejected by (simp add: map_follows_def)
    qed (simp_all add: MapPending map_follows_def)
  next
    case MapFulfilled
    then show ?thesis using notF by simp
  next
    case (MapRejected e)
    with rej obtain k e' where k: "k < length (pipelines st)" "pipelines st ! k = Rejected e'"
      by blast
    then have "k \<noteq> i" using pend by auto
    then have "?ps ! k = Rejected e'" using k by simp
    then have "\<not> list_all (\<lambda>q. q = Fulfilled) ?ps" using k by (auto simp: list_all_length)
    then show ?thesis using MapRejected by (simp add: map_follows_def)
  qed
  have mR: "(\<exists>e. ?m = MapRejected e) \<longrightarrow> (\<exists>k<length ?ps. \<exists>e. ?ps ! k = Rejected e)"
  proof (cases "map_promise st")
    case MapPending
    show ?thesis
    proof (cases p)
      case (Rejected e)
      then show ?thesis using pi i by auto
    qed (simp_all add: MapPending map_follows_def)
  next
    case MapFulfilled
    then show ?thesis using notF by simp
  next
    case (MapRejected e)
    with rej obtain k e' where k: "k < length (pipelines st)" "pipelines st ! k = Rejected e'"
      by blast
    then have "k \<noteq> i" using pend by auto
    then have "?ps ! k = Rejected e'" using k by simp
    then show ?thesis using k by auto
  qed
  have inst': "\<forall>j<length ?ps. ?ps ! j = Fulfilled \<longrightarrow> Settled j Installing None \<in> set (events st @ ev)"
  proof (intro allI impI)
    fix j assume j: "j < length ?ps" and f: "?ps ! j = Fulfilled"
    show "Settled j Installing None \<in> set (events st @ ev)"
    proof (cases "j = i")
      case True
      with f pi have "p = Fulfilled" by simp
      with cases have "ev = [Settled i Installing None, Logged (names st ! i) ''Ready'']" by auto
      then show ?thesis using True by simp
    next
      case False
      with f j inst show ?thesis by simp
    qed
  qed
  have c': "ProjectBuildCalled \<in> set ?ev \<longleftrightarrow> ?m = MapFulfilled"
  proof -
    have "?m = MapFulfilled \<Longrightarrow> map_promise st = MapPending"
      using notF by (cases "map_promise st") (simp_all add: map_follows_def)
    then show ?thesis using notC notE by auto
  qed
  have b': "ProjectBuildCalled \<in> set ?ev \<longrightarrow>
      (\<forall>j<length ?ps. before (Settled j Installing None) ProjectBuildCalled ?ev)"
  proof (intro impI allI)
    fix j assume "ProjectBuildCalled \<in> set ?ev" and j: "j < length ?ps"
    then have fire: "?fire" using notC notE by (auto split: if_splits)
    then have "list_all (\<lambda>q. q = Fulfilled) ?ps" using mF by simp
    then have "?ps ! j = Fulfilled" using j by (simp add: list_all_length)
    with inst' j have "Settled j Installing None \<in> set (events st @ ev)" by blast
    from before_snoc[OF this, of ProjectBuildCalled]
    have "before (Settled j Installing None) ProjectBuildCalled
        ((events st @ ev) @ [ProjectBuildCalled])" .
    moreover have "?ev = (events st @ ev) @ [ProjectBuildCalled]" using fire by auto
    ultimately show "before (Settled j Installing None) ProjectBuildCalled ?ev" by simp
  qed
  have i'': "\<forall>j<length ?ps. ?ps ! j = Fulfilled \<longrightarrow> Settled j Installing None \<in> set ?ev"
    using inst' by auto
  show ?thesis
    unfolding eq barrier_inv_def using len c' mF mR i'' b' by simp
qed

lemma barrier_inv_run: "barrier_inv (build_run nms schedule)"
  unfolding build_run_def
  by (induction schedule rule: rev_induct) (simp_all add: barrier_inv_start barrier_inv_step)

lemma names_stage_settles: "names (stage_settles i r st) = names st"
  by (simp add: stage_settles_def Let_def split: promise.splits)

lemma names_run: "names (build_run nms schedule) = nms"
  unfolding build_run_def
  by (induction schedule rule: rev_induct) (simp_all add: names_stage_settles build_dependencies_def)

lemma stage_settles_others:
  "k \<noteq> i \<Longrightarrow> pipelines (stage_settles i r st) ! k = pipelines st ! k"
  by (simp add: stage_settles_def Let_def split: promise.splits)

lemma stage_settles_proceeds:
  "j < length (pipelines st) \<Longrightarrow> pipelines st ! j = Pending s \<Longrightarrow>
     pipelines (stage_settles j r st) ! j = snd (getDependency_then j (names st ! j) r (Pending s))"
  by (simp add: stage_settles_def Let_def)

lemmas build_eval =
  build_run_def build_dependencies_def getDependency_def stage_settles_def map_follows_def
  upt_rec

section \<open>C8: \<open>Path.append\<close> and the order of appending\<close>

text \<open>
  Claim C8, as stated: \<open>p.append(a, b).append(c)\<close> equals \<open>p.append(a, b, c)\<close> for every path
  and all segments. It fails in one corner: \<open>path.join\<close> skips empty segments and answers
  \<open>.\<close> when all of them are empty, so with \<open>p\<close>, \<open>a\<close> and \<open>b\<close> empty the first
  \<open>append\<close> yields \<open>.\<close>, which turns an absolute \<open>c\<close> into a relative path.
\<close>

theorem append_assoc_counterexample:
  "Path_append (Path_append [] [[], []]) [''/x''] \<noteq> Path_append [] [[], [], ''/x'']"
  by (simp add: Path_append_def Path_toString_def npath_join_def join_segment_def
      npath_normalize_def isAbsolute_def trailingSlash_def)

text \<open>
  Claim C8, amended: \<open>append\<close> is a pure function of its strings, and
  \<open>p.append(a, b).append(c) = p.append(a, b, c)\<close> for every path \<open>p\<close> and all segments
  \<open>a\<close>, \<open>b\<close>, \<open>c\<close>, unless \<open>p\<close>, \<open>a\<close> and \<open>b\<close> are all empty and \<open>c\<close> starts with a slash.
\<close>

theorem append_assoc_amended:
  assumes "\<not> (p = [] \<and> a = [] \<and> b = [] \<and> isAbsolute c)"
  shows "Path_append (Path_append p [a, b]) [c] = Path_append p [a, b, c]"
proof -
  let ?x = "foldl join_segment [] [p, a, b]"
  have l: "Path_append (Path_append p [a, b]) [c] = npath_normalize (join_segment (npath_normalize ?x) c)"
    by (simp add: Path_append_def Path_toString_def npath_join_def join_segment_Nil)
  have r: "Path_append p [a, b, c] = npath_normalize (join_segment ?x c)"
    by (simp add: Path_append_def Path_toString_def npath_join_def)
  have x: "?x = [] \<longleftrightarrow> p = [] \<and> a = [] \<and> b = []"
    by (auto simp: join_segment_def)
  show ?thesis
  proof (cases "c = []")
    case True
    then show ?thesis unfolding l r by (simp add: join_segment_def normalize_idem)
  next
    case False
    note c = this
    show ?thesis
    proof (cases "?x = []")
      case True
      with x assms have "\<not> isAbsolute c" by simp
      from normalize_dot_slash[OF c this] True c
      show ?thesis unfolding l r
        by (simp add: join_segment_def npath_normalize_def isAbsolute_def trailingSlash_def)
    next
      case False
      from normalize_append_normalize[OF False c] False c
      show ?thesis unfolding l r
        by (simp add: join_segment_def normalize_nonempty)
    qed
  qed
qed

text \<open>The amended claim at \<open>/home/u\<close> with the segments \<open>Raft\<close>, \<open>../libs/\<close> and \<open>./src\<close>:
  both orders give \<open>/home/u/libs/src\<close>.\<close>

theorem append_assoc_witness:
  "\<not> (''/home/u'' = [] \<and> ''Raft'' = [] \<and> ''../libs/'' = [] \<and> isAbsolute ''./src'')
   \<and> Path_append (Path_append ''/home/u'' [''Raft'', ''../libs/'']) [''./src'']
     = Path_append ''/home/u'' [''Raft'', ''../libs/'', ''./src'']
   \<and> Path_append ''/home/u'' [''Raft'', ''../libs/'', ''./src''] = ''/home/u/libs/src''"
proof -
  have h: "\<not> (''/home/u'' = [] \<and> ''Raft'' = [] \<and> ''../libs/'' = [] \<and> isAbsolute ''./src'')"
    by simp
  have v: "Path_append ''/home/u'' [''Raft'', ''../libs/'', ''./src''] = ''/home/u/libs/src''"
    by (simp add: Path_append_def Path_toString_def npath_join_def join_segment_def
      npath_normalize_def isAbsolute_def trailingSlash_def)
  show ?thesis using h append_assoc_amended[OF h] v by simp
qed

section \<open>C4: derived directories per (name, platform, architecture)\<close>

text \<open>
  Claim C4, as stated: for two distinct triples (dependency name, platform, architecture)
  the derived build directory and the derived install directory both differ. The install
  prefix of a dependency is \<open>dirForDependencyInstall(build)\<close>, which does not look at the
  name: \<open>foo\<close> and \<open>bar\<close> share it on one target. And \<open>path.join\<close> normalizes, so the names
  \<open>foo\<close> and \<open>./foo\<close> get the same build directory.
\<close>

theorem derived_dirs_injective_counterexample:
  "(''foo'', ''host'', ''host'') \<noteq> (''bar'', ''host'', ''host'')
   \<and> installLocation (CMakeDependency_locations \<lparr>root = ''/p'', raftfile = None\<rparr> ''foo''
         \<lparr>isDeploy = False, platform = ''host'', architecture = ''host''\<rparr>)
     = installLocation (CMakeDependency_locations \<lparr>root = ''/p'', raftfile = None\<rparr> ''bar''
         \<lparr>isDeploy = False, platform = ''host'', architecture = ''host''\<rparr>)
   \<and> (''foo'', ''host'', ''host'') \<noteq> (''./foo'', ''host'', ''host'')
   \<and> dirForDependencyBuild \<lparr>root = ''/p'', raftfile = None\<rparr> ''foo''
         \<lparr>isDeploy = False, platform = ''host'', architecture = ''host''\<rparr>
     = dirForDependencyBuild \<lparr>root = ''/p'', raftfile = None\<rparr> ''./foo''
         \<lparr>isDeploy = False, platform = ''host'', architecture = ''host''\<rparr>"
  by (simp add: CMakeDependency_locations_def dirForDependencyBuild_def
      DEPENDENCY_BUILD_DIR_eq Path_append_def Path_toString_def npath_join_def
      join_segment_def npath_normalize_def isAbsolute_def trailingSlash_def)

text \<open>
  Claim C4, amended: for triples whose name, platform and architecture are plain path
  segments (not empty, no slash, neither \<open>.\<close> nor \<open>..\<close>), the build directory
  \<open>dirForDependencyBuild\<close> is injective in the triple, under any project root; the install
  directory \<open>dirForDependencyInstall\<close> is a function of platform and architecture alone,
  and injective in that pair.
\<close>

theorem derived_dirs_injective_amended:
  assumes "plain (platform b)" "plain (architecture b)" "plain n"
      and "plain (platform b')" "plain (architecture b')" "plain n'"
  shows "(dirForDependencyBuild prj n b = dirForDependencyBuild prj n' b'
            \<longleftrightarrow> (n, platform b, architecture b) = (n', platform b', architecture b'))
       \<and> (dirForDependencyInstall prj b = dirForDependencyInstall prj b'
            \<longleftrightarrow> (platform b, architecture b) = (platform b', architecture b'))"
proof -
  have ns: "noslash (platform b)" "noslash (architecture b)" "noslash (platform b')"
    "noslash (architecture b')"
    using assms by (simp_all add: plain_def)
  have bd: "dirForDependencyBuild prj m c
      = (if isAbsolute (join_segment (root prj) ''Raft/libs/build'') then ''/'' else [])
        @ (if segments (join_segment (root prj) ''Raft/libs/build'') = [] then []
           else join_slash (segments (join_segment (root prj) ''Raft/libs/build'')) @ ''/'')
        @ platform c @ ''/'' @ architecture c @ ''/'' @ m"
    if "plain (platform c)" "plain (architecture c)" "plain m" for m c
    unfolding dirForDependencyBuild_def DEPENDENCY_BUILD_DIR_eq
    using that by (subst append_plain_segments) simp_all
  have inst: "dirForDependencyInstall prj c
      = (if isAbsolute (join_segment (root prj) ''Raft/libs/install'') then ''/'' else [])
        @ (if segments (join_segment (root prj) ''Raft/libs/install'') = [] then []
           else join_slash (segments (join_segment (root prj) ''Raft/libs/install'')) @ ''/'')
        @ platform c @ ''/'' @ architecture c"
    if "plain (platform c)" "plain (architecture c)" for c
    unfolding dirForDependencyInstall_def DEPENDENCY_INSTALL_DIR_eq
    using that by (subst append_plain_segments) simp_all
  have one: "u @ CHR ''/'' # v = u' @ CHR ''/'' # v' \<longleftrightarrow> u = u' \<and> v = v'"
    if "noslash u" "noslash u'" for u u' v v' :: string
    using slash_split_unique[OF that] by blast
  show ?thesis
    unfolding bd[OF assms(1,2,3)] bd[OF assms(4,5,6)] inst[OF assms(1,2)] inst[OF assms(4,5)]
    using ns by (auto simp: one)
qed


text \<open>The amended claim for \<open>foo\<close> on the targets \<open>Host/Host\<close> and \<open>Android/armeabi\<close>.\<close>

theorem derived_dirs_injective_witness:
  "plain ''Host'' \<and> plain ''foo'' \<and> plain ''Android'' \<and> plain ''armeabi''
   \<and> dirForDependencyBuild \<lparr>root = ''/p'', raftfile = None\<rparr> ''foo''
         \<lparr>isDeploy = False, platform = ''Host'', architecture = ''Host''\<rparr>
     \<noteq> dirForDependencyBuild \<lparr>root = ''/p'', raftfile = None\<rparr> ''foo''
         \<lparr>isDeploy = False, platform = ''Android'', architecture = ''armeabi''\<rparr>
   \<and> dirForDependencyInstall \<lparr>root = ''/p'', raftfile = None\<rparr>
         \<lparr>isDeploy = False, platform = ''Host'', architecture = ''Host''\<rparr>
     \<noteq> dirForDependencyInstall \<lparr>root = ''/p'', raftfile = None\<rparr>
         \<lparr>isDeploy = False, platform = ''Android'', architecture = ''armeabi''\<rparr>"
proof -
  have p: "plain ''Host''" "plain ''foo''" "plain ''Android''" "plain ''armeabi''"
    by (simp_all add: plain_def noslash_def)
  show ?thesis
    using p derived_dirs_injective_amended[of
        "\<lparr>isDeploy = False, platform = ''Host'', architecture = ''Host''\<rparr>" "''foo''"
        "\<lparr>isDeploy = False, platform = ''Android'', architecture = ''armeabi''\<rparr>" "''foo''"
        "\<lparr>root = ''/p'', raftfile = None\<rparr>"]
    by simp
qed

section \<open>C9: when the upward search ends\<close>

text \<open>
  Claim C9: for a starting path whose string is relative (the parsed root is empty)
  \<open>isRoot()\<close> is false for the path and for every iterate of \<open>parent()\<close>, the iterates
  reach \<open>.\<close> and stay there, and so the loop of \<open>Project.find\<close> never ends (neither
  \<open>find\<close> returns); for an absolute starting path the loop ends (both return).
\<close>

theorem find_loop_termination:
  "(parsed_root (npath_parse p) = [] \<longrightarrow>
       (\<forall>n. \<not> Path_isRoot ((Path_parent ^^ n) p))
     \<and> (\<exists>n. \<forall>m\<ge>n. (Path_parent ^^ m) p = ''.'')
     \<and> find_paths [p] = None
     \<and> Project_find json p w = None
     \<and> Raft_Project_find p fsys = None)
   \<and> (isAbsolute p \<longrightarrow>
       (\<exists>paths. find_paths [p] = Some paths)
     \<and> Project_find json p w \<noteq> None
     \<and> Raft_Project_find p fsys \<noteq> None)"
proof (intro conjI impI)
  assume "parsed_root (npath_parse p) = []"
  then have rel: "\<not> isAbsolute p" by (simp add: parsed_root_empty)
  show "\<forall>n. \<not> Path_isRoot ((Path_parent ^^ n) p)"
    using funpow_parent_relative[OF rel] isRoot_isAbsolute by blast
  show "\<exists>n. \<forall>m\<ge>n. (Path_parent ^^ m) p = ''.''"
    by (rule relative_stays_dot[OF rel])
  show none: "find_paths [p] = None"
    by (rule find_paths_relative[OF rel])
  show "Project_find json p w = None"
    by (simp add: Project_find_def none)
  show "Raft_Project_find p fsys = None"
    by (simp add: Raft_Project_find_def none)
next
  assume "isAbsolute p"
  then obtain cs where cs: "find_paths [p] = Some cs"
    using find_paths_absolute[of "[p]"] by auto
  then show "\<exists>paths. find_paths [p] = Some paths" by blast
  show "Project_find json p w \<noteq> None"
    by (simp add: Project_find_def cs Let_def split: option.splits)
  show "Raft_Project_find p fsys \<noteq> None"
    by (simp add: Raft_Project_find_def cs Let_def split: option.splits)
qed

text \<open>Claim C9 at the relative path \<open>src/lib\<close> and at the absolute path \<open>/home/u/proj\<close>,
  whose chain stops at \<open>/home\<close>.\<close>

theorem find_loop_termination_witness:
  "parsed_root (npath_parse ''src/lib'') = []
   \<and> \<not> Path_isRoot ''src/lib'' \<and> \<not> Path_isRoot ''src'' \<and> \<not> Path_isRoot ''.''
   \<and> (Path_parent ^^ 2) ''src/lib'' = ''.''
   \<and> find_paths [''src/lib''] = None
   \<and> isAbsolute ''/home/u/proj''
   \<and> find_paths [''/home/u/proj''] = Some [''/home/u/proj'', ''/home/u'', ''/home'']"
proof -
  have r: "parsed_root (npath_parse ''src/lib'') = []" by (simp add: path_eval)
  have a: "isAbsolute ''/home/u/proj''" by (simp add: path_eval)
  have i: "\<not> Path_isRoot ''src/lib''" "\<not> Path_isRoot ''src''" "\<not> Path_isRoot ''.''"
    by (simp_all add: path_eval)
  have e: "find_paths [''/home/u/proj''] = Some [''/home/u/proj'', ''/home/u'', ''/home'']"
    by (simp add: find_paths.simps path_eval)
  have d: "(Path_parent ^^ 2) ''src/lib'' = ''.''"
    by (simp add: eval_nat_numeral path_eval)
  from find_loop_termination[of "''src/lib''"] r
  have "find_paths [''src/lib''] = None" by blast
  with r a i e d show ?thesis by blast
qed

section \<open>C1: the nearest marker directory\<close>

text \<open>
  Claim C1, as stated: whenever a candidate of the chain has the marker directory,
  \<open>Project.find(P)\<close> returns a project rooted at the nearest one. The \<open>find\<close> of Project.ts
  hands the candidate to \<open>load()\<close>: started in \<open>/home/u/proj/src\<close>, with
  \<open>/home/u/proj/Raft\<close> present and no \<open>raftfile.json\<close> in it, the promise is rejected with
  the read error, and no project is returned.
\<close>

theorem find_nearest_marker_counterexample:
  "Path_parent ''/home/u/proj/src'' = ''/home/u/proj''
   \<and> \<not> Path_isRoot ''/home/u/proj/src''
   \<and> Path_exists (Path_append ''/home/u/proj'' [''Raft''])
        \<lparr>directories = [''/'', ''/home'', ''/home/u'', ''/home/u/proj'', ''/home/u/proj/Raft'',
           ''/home/u/proj/src''], regular_files = []\<rparr>
   \<and> Project_find \<lparr>parse = Map.empty, stringify = concat \<circ> map name\<rparr> ''/home/u/proj/src''
        \<lparr>fs = \<lparr>directories = [''/'', ''/home'', ''/home/u'', ''/home/u/proj'',
                 ''/home/u/proj/Raft'', ''/home/u/proj/src''], regular_files = []\<rparr>,
         console = [], arrays = []\<rparr>
     = Some (Inl (ReadError ENOENT),
        \<lparr>fs = \<lparr>directories = [''/'', ''/home'', ''/home/u'', ''/home/u/proj'',
                 ''/home/u/proj/Raft'', ''/home/u/proj/src''], regular_files = []\<rparr>,
         console = [], arrays = []\<rparr>)"
  by (simp add: Project_find_def find_paths.simps path_eval first_def Path_exists_def
      accessSync_def Project_load_def Path_read_def RAFT_FILE_def RAFT_DIR_def)

text \<open>
  Claim C1, amended. Let the chain of \<open>P\<close> be \<open>P\<close>, \<open>parent(P)\<close>, ... up to and including
  the first path with \<open>isRoot()\<close> (the \<open>n\<close>-th iterate); the loop computes exactly this
  chain. If the \<open>m\<close>-th candidate is the first one under which \<open>Raft\<close> exists, then the
  \<open>find\<close> of Raft.ts returns the project rooted there, and the \<open>find\<close> of Project.ts is
  the \<open>load()\<close> of the project rooted there: it resolves to that project when the manifest
  can be read and parsed, and is rejected with the read error or the \<open>SyntaxError\<close>
  otherwise. If no candidate has the marker, Raft.ts returns \<open>null\<close> and Project.ts rejects
  with \<open>null\<close> (the spec's \<open>ProjectNotFound\<close>).
\<close>

theorem find_nearest_marker_amended:
  assumes "Path_isRoot ((Path_parent ^^ n) P)"
      and "\<forall>k<n. \<not> Path_isRoot ((Path_parent ^^ k) P)"
  shows "find_paths [P] = Some (map (\<lambda>k. (Path_parent ^^ k) P) [0..<Suc n])
    \<and> (\<forall>m\<le>n. Path_exists (Path_append ((Path_parent ^^ m) P) [''Raft'']) (fs w)
          \<and> (\<forall>k<m. \<not> Path_exists (Path_append ((Path_parent ^^ k) P) [''Raft'']) (fs w)) \<longrightarrow>
          Raft_Project_find P (fs w) = Some (Some \<lparr>Raft_root = (Path_parent ^^ m) P\<rparr>)
        \<and> Project_find json P w
            = Some (Project_load json \<lparr>root = (Path_parent ^^ m) P, raftfile = None\<rparr> w)
        \<and> (\<forall>e. Path_read (Path_append ((Path_parent ^^ m) P) [RAFT_FILE]) (fs w) = Inl e \<longrightarrow>
              Project_find json P w = Some (Inl e, w))
        \<and> (\<forall>data. Path_read (Path_append ((Path_parent ^^ m) P) [RAFT_FILE]) (fs w) = Inr data
                \<and> parse json data = None \<longrightarrow>
              Project_find json P w = Some (Inl SyntaxError, raftlog ''Project Data'' data w))
        \<and> (\<forall>data deps. Path_read (Path_append ((Path_parent ^^ m) P) [RAFT_FILE]) (fs w) = Inr data
                \<and> parse json data = Some deps \<longrightarrow>
              (\<exists>w'. Project_find json P w
                 = Some (Inr \<lparr>root = (Path_parent ^^ m) P,
                               raftfile = Some \<lparr>dependencies = length (arrays w)\<rparr>\<rparr>, w')
                 \<and> fs w' = fs w \<and> arrays w' = arrays w @ [deps])))
    \<and> ((\<forall>k\<le>n. \<not> Path_exists (Path_append ((Path_parent ^^ k) P) [''Raft'']) (fs w)) \<longrightarrow>
          Raft_Project_find P (fs w) = Some None
        \<and> Project_find json P w = Some (Inl Rejected_null, w))"
proof (intro conjI allI impI)
  show ch: "find_paths [P] = Some (map (\<lambda>k. (Path_parent ^^ k) P) [0..<Suc n])"
    by (rule find_paths_start[OF assms])
  {
    fix m
    assume m: "m \<le> n"
      and h: "Path_exists (Path_append ((Path_parent ^^ m) P) [''Raft'']) (fs w)
        \<and> (\<forall>k<m. \<not> Path_exists (Path_append ((Path_parent ^^ k) P) [''Raft'']) (fs w))"
    let ?Q = "\<lambda>p. Path_exists (Path_append p [''Raft'']) (fs w)"
    have f: "first (filter ?Q (map (\<lambda>k. (Path_parent ^^ k) P) [0..<Suc n])) = Some ((Path_parent ^^ m) P)"
      using first_filter_nearest[of m n ?Q "\<lambda>k. (Path_parent ^^ k) P"] m h by blast
    show "Raft_Project_find P (fs w) = Some (Some \<lparr>Raft_root = (Path_parent ^^ m) P\<rparr>)"
      by (simp add: Raft_Project_find_def ch f del: upt_Suc)
    show pf: "Project_find json P w
            = Some (Project_load json \<lparr>root = (Path_parent ^^ m) P, raftfile = None\<rparr> w)"
      by (simp add: Project_find_def ch f del: upt_Suc)
    {
      fix e
      assume "Path_read (Path_append ((Path_parent ^^ m) P) [RAFT_FILE]) (fs w) = Inl e"
      then show "Project_find json P w = Some (Inl e, w)"
        unfolding pf by (simp add: Project_load_def)
    }
    {
      fix data
      assume "Path_read (Path_append ((Path_parent ^^ m) P) [RAFT_FILE]) (fs w) = Inr data
                \<and> parse json data = None"
      then show "Project_find json P w = Some (Inl SyntaxError, raftlog ''Project Data'' data w)"
        unfolding pf by (simp add: Project_load_def)
    }
    {
      fix data deps
      assume "Path_read (Path_append ((Path_parent ^^ m) P) [RAFT_FILE]) (fs w) = Inr data
                \<and> parse json data = Some deps"
      then show "\<exists>w'. Project_find json P w
                 = Some (Inr \<lparr>root = (Path_parent ^^ m) P,
                               raftfile = Some \<lparr>dependencies = length (arrays w)\<rparr>\<rparr>, w')
                 \<and> fs w' = fs w \<and> arrays w' = arrays w @ [deps]"
        unfolding pf by (simp add: Project_load_def new_array_def raftlog_def)
    }
  }
  {
    assume "\<forall>k\<le>n. \<not> Path_exists (Path_append ((Path_parent ^^ k) P) [''Raft'']) (fs w)"
    then have f: "first (filter (\<lambda>p. Path_exists (Path_append p [''Raft'']) (fs w))
        (map (\<lambda>k. (Path_parent ^^ k) P) [0..<Suc n])) = None"
      by (intro first_filter_none) simp
    show "Raft_Project_find P (fs w) = Some None"
      by (simp add: Raft_Project_find_def ch f del: upt_Suc)
    show "Project_find json P w = Some (Inl Rejected_null, w)"
      by (simp add: Project_find_def ch f del: upt_Suc)
  }
qed

text \<open>The amended claim started in \<open>/home/u/proj/src\<close>: the chain ends at \<open>/home\<close>, the
  marker is found one step up, and the manifest \<open>{}\<close> loads.\<close>

theorem find_nearest_marker_witness:
  "Path_isRoot ((Path_parent ^^ 3) ''/home/u/proj/src'')
   \<and> \<not> Path_isRoot ''/home/u/proj/src'' \<and> \<not> Path_isRoot ''/home/u/proj''
   \<and> \<not> Path_isRoot ''/home/u''
   \<and> (Path_parent ^^ 1) ''/home/u/proj/src'' = ''/home/u/proj''
   \<and> Path_exists (Path_append ''/home/u/proj'' [''Raft''])
        \<lparr>directories = [''/'', ''/home'', ''/home/u'', ''/home/u/proj'', ''/home/u/proj/Raft'',
           ''/home/u/proj/src''],
         regular_files = [(''/home/u/proj/Raft/raftfile.json'', ''{}'')]\<rparr>
   \<and> \<not> Path_exists (Path_append ''/home/u/proj/src'' [''Raft''])
        \<lparr>directories = [''/'', ''/home'', ''/home/u'', ''/home/u/proj'', ''/home/u/proj/Raft'',
           ''/home/u/proj/src''],
         regular_files = [(''/home/u/proj/Raft/raftfile.json'', ''{}'')]\<rparr>
   \<and> Raft_Project_find ''/home/u/proj/src''
        \<lparr>directories = [''/'', ''/home'', ''/home/u'', ''/home/u/proj'', ''/home/u/proj/Raft'',
           ''/home/u/proj/src''],
         regular_files = [(''/home/u/proj/Raft/raftfile.json'', ''{}'')]\<rparr>
     = Some (Some \<lparr>Raft_root = ''/home/u/proj''\<rparr>)
   \<and> (\<exists>w'. Project_find \<lparr>parse = [''{}'' \<mapsto> []], stringify = concat \<circ> map name\<rparr>
          ''/home/u/proj/src''
          \<lparr>fs = \<lparr>directories = [''/'', ''/home'', ''/home/u'', ''/home/u/proj'',
                   ''/home/u/proj/Raft'', ''/home/u/proj/src''],
                 regular_files = [(''/home/u/proj/Raft/raftfile.json'', ''{}'')]\<rparr>,
           console = [], arrays = []\<rparr>
        = Some (Inr \<lparr>root = ''/home/u/proj'', raftfile = Some \<lparr>dependencies = 0\<rparr>\<rparr>, w'))"
proof -
  let ?P = "''/home/u/proj/src''"
  let ?fs = "\<lparr>directories = [''/'', ''/home'', ''/home/u'', ''/home/u/proj'', ''/home/u/proj/Raft'',
           ''/home/u/proj/src''],
         regular_files = [(''/home/u/proj/Raft/raftfile.json'', ''{}'')]\<rparr>"
  let ?w = "\<lparr>fs = ?fs, console = [], arrays = []\<rparr>"
  let ?json = "\<lparr>parse = [''{}'' \<mapsto> []], stringify = concat \<circ> map name\<rparr>"
  have p1: "Path_parent ?P = ''/home/u/proj''" by (simp add: path_eval)
  have p2: "Path_parent ''/home/u/proj'' = ''/home/u''" by (simp add: path_eval)
  have p3: "Path_parent ''/home/u'' = ''/home''" by (simp add: path_eval)
  have pw: "(Path_parent ^^ 0) ?P = ?P" "(Path_parent ^^ 1) ?P = ''/home/u/proj''"
    "(Path_parent ^^ 2) ?P = ''/home/u''" "(Path_parent ^^ 3) ?P = ''/home''"
    by (simp_all add: eval_nat_numeral p1 p2 p3)
  have r: "Path_isRoot ''/home''" "\<not> Path_isRoot ?P" "\<not> Path_isRoot ''/home/u/proj''"
    "\<not> Path_isRoot ''/home/u''"
    by (simp_all add: path_eval)
  have h1: "Path_isRoot ((Path_parent ^^ 3) ?P)" using r pw by simp
  have h2: "\<forall>k<3. \<not> Path_isRoot ((Path_parent ^^ k) ?P)"
  proof (intro allI impI)
    fix k :: nat assume "k < 3"
    then have "k = 0 \<or> k = 1 \<or> k = 2" by auto
    then show "\<not> Path_isRoot ((Path_parent ^^ k) ?P)" using r pw by auto
  qed
  have m1: "Path_exists (Path_append ''/home/u/proj'' [''Raft'']) ?fs"
    by (simp add: path_eval Path_exists_def accessSync_def)
  have m0: "\<not> Path_exists (Path_append ?P [''Raft'']) ?fs"
    by (simp add: path_eval Path_exists_def accessSync_def)
  have m: "Path_exists (Path_append ((Path_parent ^^ 1) ?P) [''Raft'']) (fs ?w)
      \<and> (\<forall>k<1. \<not> Path_exists (Path_append ((Path_parent ^^ k) ?P) [''Raft'']) (fs ?w))"
    using m1 m0 pw by simp
  have rd: "Path_read (Path_append ((Path_parent ^^ 1) ?P) [RAFT_FILE]) (fs ?w) = Inr ''{}''
      \<and> parse ?json ''{}'' = Some []"
    unfolding pw by (simp add: path_eval Path_read_def RAFT_FILE_def RAFT_DIR_def)
  note T = find_nearest_marker_amended[of 3 ?P ?w ?json, OF h1 h2]
  from T have "\<forall>m\<le>3. Path_exists (Path_append ((Path_parent ^^ m) ?P) [''Raft'']) (fs ?w)
          \<and> (\<forall>k<m. \<not> Path_exists (Path_append ((Path_parent ^^ k) ?P) [''Raft'']) (fs ?w)) \<longrightarrow>
          Raft_Project_find ?P (fs ?w) = Some (Some \<lparr>Raft_root = (Path_parent ^^ m) ?P\<rparr>)
        \<and> (\<forall>data deps. Path_read (Path_append ((Path_parent ^^ m) ?P) [RAFT_FILE]) (fs ?w) = Inr data
                \<and> parse ?json data = Some deps \<longrightarrow>
              (\<exists>w'. Project_find ?json ?P ?w
                 = Some (Inr \<lparr>root = (Path_parent ^^ m) ?P,
                               raftfile = Some \<lparr>dependencies = length (arrays ?w)\<rparr>\<rparr>, w')
                 \<and> fs w' = fs ?w \<and> arrays w' = arrays ?w @ [deps]))"
    by blast
  from this[rule_format, of 1, OF _ m] have
    a: "Raft_Project_find ?P (fs ?w) = Some (Some \<lparr>Raft_root = (Path_parent ^^ 1) ?P\<rparr>)"
    and b: "\<And>data deps. Path_read (Path_append ((Path_parent ^^ 1) ?P) [RAFT_FILE]) (fs ?w) = Inr data
                \<and> parse ?json data = Some deps \<Longrightarrow>
              (\<exists>w'. Project_find ?json ?P ?w
                 = Some (Inr \<lparr>root = (Path_parent ^^ 1) ?P,
                               raftfile = Some \<lparr>dependencies = length (arrays ?w)\<rparr>\<rparr>, w')
                 \<and> fs w' = fs ?w \<and> arrays w' = arrays ?w @ [deps])"
    by simp_all
  from b[OF rd] obtain w' where
    c: "Project_find ?json ?P ?w
          = Some (Inr \<lparr>root = (Path_parent ^^ 1) ?P, raftfile = Some \<lparr>dependencies = length (arrays ?w)\<rparr>\<rparr>, w')"
    by blast
  have c': "\<exists>w'. Project_find ?json ?P ?w
          = Some (Inr \<lparr>root = ''/home/u/proj'', raftfile = Some \<lparr>dependencies = 0\<rparr>\<rparr>, w')"
    using c unfolding pw by simp
  have a': "Raft_Project_find ?P ?fs = Some (Some \<lparr>Raft_root = ''/home/u/proj''\<rparr>)"
    using a unfolding pw by simp
  show ?thesis
    using h1 r pw(2) m1 m0 a' c' by (intro conjI)
qed

section \<open>C10: \<open>Project.dependencies()\<close> hands out a copy\<close>

text \<open>
  Claim C10: with a manifest loaded, every call of \<open>dependencies()\<close> returns a new array
  object holding the elements of the manifest's list. Whatever is written into the
  returned array, the manifest's own array keeps its contents; a second call returns yet
  another array, element-wise equal to the first, and it still returns the manifest's
  elements after the first copy has been overwritten.
  \<open>slice(0)\<close> copies the array and not its elements: the copy holds the manifest's own
  descriptor objects. The store keeps descriptors by value, and the statement is about
  writes to the returned array, not about writes into a descriptor.
\<close>

theorem dependencies_fresh_copy:
  assumes "raftfile this = Some rf" and "dependencies rf < length (arrays w)"
  shows "\<exists>r w'. Project_dependencies this w = Inr (r, w')
      \<and> r \<noteq> dependencies rf
      \<and> arrays w' ! r = arrays w ! dependencies rf
      \<and> arrays w' ! dependencies rf = arrays w ! dependencies rf
      \<and> (\<forall>xs. arrays (array_write r xs w') ! dependencies rf = arrays w ! dependencies rf)
      \<and> (\<exists>r2 w2. Project_dependencies this w' = Inr (r2, w2)
            \<and> r2 \<noteq> r \<and> r2 \<noteq> dependencies rf
            \<and> arrays w2 ! r2 = arrays w2 ! r
            \<and> arrays w2 ! dependencies rf = arrays w ! dependencies rf)
      \<and> (\<forall>xs. \<exists>r2 w2. Project_dependencies this (array_write r xs w') = Inr (r2, w2)
            \<and> arrays w2 ! r2 = arrays w ! dependencies rf)"
proof -
  let ?a = "dependencies rf"
  let ?r = "length (arrays w)"
  let ?w' = "w\<lparr>arrays := arrays w @ [arrays w ! ?a]\<rparr>"
  have call: "Project_dependencies this w = Inr (?r, ?w')"
    using assms by (simp add: Project_dependencies_def new_array_def)
  have fresh: "?r \<noteq> ?a" using assms(2) by simp
  have same: "arrays ?w' ! ?r = arrays w ! ?a" by simp
  have kept: "arrays ?w' ! ?a = arrays w ! ?a" using assms(2) by (simp add: nth_append)
  have mut: "arrays (array_write ?r xs ?w') ! ?a = arrays w ! ?a" for xs
    using assms(2) by (simp add: array_write_def nth_append)
  have again: "Project_dependencies this ?w'
      = Inr (Suc ?r, ?w'\<lparr>arrays := arrays ?w' @ [arrays w ! ?a]\<rparr>)"
    using assms by (simp add: Project_dependencies_def new_array_def nth_append)
  have again_mut: "Project_dependencies this (array_write ?r xs ?w')
      = Inr (Suc ?r, (array_write ?r xs ?w')\<lparr>arrays := arrays (array_write ?r xs ?w') @ [arrays w ! ?a]\<rparr>)" for xs
    using assms by (simp add: Project_dependencies_def new_array_def array_write_def nth_append)
  have second: "\<exists>r2 w2. Project_dependencies this ?w' = Inr (r2, w2)
            \<and> r2 \<noteq> ?r \<and> r2 \<noteq> ?a
            \<and> arrays w2 ! r2 = arrays w2 ! ?r
            \<and> arrays w2 ! ?a = arrays w ! ?a"
    unfolding again using assms(2) by (simp add: nth_append)
  have second_mut: "\<exists>r2 w2. Project_dependencies this (array_write ?r xs ?w') = Inr (r2, w2)
            \<and> arrays w2 ! r2 = arrays w ! ?a" for xs
    unfolding again_mut by (simp add: array_write_def nth_append)
  show ?thesis
    using call fresh same kept mut second second_mut by blast
qed

text \<open>Claim C10 for a manifest with the one dependency \<open>foo\<close>, stored at reference 0.\<close>

theorem dependencies_fresh_copy_witness:
  "raftfile \<lparr>root = ''/p'', raftfile = Some \<lparr>dependencies = 0\<rparr>\<rparr> = Some \<lparr>dependencies = 0\<rparr>
   \<and> dependencies \<lparr>dependencies = 0\<rparr>
       < length (arrays \<lparr>fs = \<lparr>directories = [], regular_files = []\<rparr>, console = [],
           arrays = [[\<lparr>name = ''foo'', repository = \<lparr>repo_type = Some ''git'', location = ''u''\<rparr>,
                      buildSystem = ''cmake''\<rparr>]]\<rparr>)
   \<and> (\<exists>r w'. Project_dependencies \<lparr>root = ''/p'', raftfile = Some \<lparr>dependencies = 0\<rparr>\<rparr>
          \<lparr>fs = \<lparr>directories = [], regular_files = []\<rparr>, console = [],
           arrays = [[\<lparr>name = ''foo'', repository = \<lparr>repo_type = Some ''git'', location = ''u''\<rparr>,
                      buildSystem = ''cmake''\<rparr>]]\<rparr>
          = Inr (r, w')
        \<and> r \<noteq> 0
        \<and> arrays w' ! r = [\<lparr>name = ''foo'', repository = \<lparr>repo_type = Some ''git'', location = ''u''\<rparr>,
                      buildSystem = ''cmake''\<rparr>]
        \<and> arrays (array_write r [] w') ! 0
            = [\<lparr>name = ''foo'', repository = \<lparr>repo_type = Some ''git'', location = ''u''\<rparr>,
                      buildSystem = ''cmake''\<rparr>])"
proof -
  let ?prj = "\<lparr>root = ''/p'', raftfile = Some \<lparr>dependencies = 0\<rparr>\<rparr>"
  let ?d = "\<lparr>name = ''foo'', repository = \<lparr>repo_type = Some ''git'', location = ''u''\<rparr>,
                      buildSystem = ''cmake''\<rparr>"
  let ?w = "\<lparr>fs = \<lparr>directories = [], regular_files = []\<rparr>, console = [], arrays = [[?d]]\<rparr>"
  have h1: "raftfile ?prj = Some \<lparr>dependencies = 0\<rparr>" by simp
  have h2: "dependencies \<lparr>dependencies = 0\<rparr> < length (arrays ?w)" by simp
  from dependencies_fresh_copy[OF h1 h2] obtain r w' where
    "Project_dependencies ?prj ?w = Inr (r, w')" "r \<noteq> 0" "arrays w' ! r = [?d]"
    "arrays (array_write r [] w') ! 0 = [?d]"
    by auto
  then show ?thesis using h1 h2 by blast
qed

section \<open>C5: unknown repository types and build systems\<close>

text \<open>What holds of the claim: a missing or empty repository type and a build system other
  than \<open>cmake\<close> are refused (the repository is looked at first).\<close>

lemma createRepository_missing_type:
  "repo_type d = None \<or> repo_type d = Some [] \<Longrightarrow>
     createRepository d = Inl (Error ''Unknown repository type'')"
  by (auto simp: createRepository_def)

lemma createDependency_unknown_buildSystem:
  "buildSystem d \<noteq> ''cmake'' \<Longrightarrow> \<exists>e. createDependency d = Inl e"
  by (simp add: createDependency_def split: sum.splits)

lemma createRepository_any_type:
  "t \<noteq> [] \<Longrightarrow> createRepository \<lparr>repo_type = Some t, location = l\<rparr> = Inr (GitRepository l)"
  by (simp add: createRepository_def)

text \<open>
  Claim C5 says that an unrecognized \<open>repository.type\<close> is rejected and never treated as a
  known variant. The code at the descriptor \<open>{type: "svn", location: ...}\<close>: the test
  \<open>if (repoDescriptor.type)\<close> only asks whether a type is there, so \<open>createRepository\<close>
  answers with a \<open>GitRepository\<close>, and \<open>createDependency\<close> builds a dependency on it.
\<close>

theorem createRepository_unknown_type_accepted:
  "createRepository \<lparr>repo_type = Some ''svn'', location = ''https://example/foo''\<rparr>
     = Inr (GitRepository ''https://example/foo'')
   \<and> createDependency
       \<lparr>name = ''foo'',
        repository = \<lparr>repo_type = Some ''svn'', location = ''https://example/foo''\<rparr>,
        buildSystem = ''cmake''\<rparr>
     = Inr (CMakeDependency ''foo'' (GitRepository ''https://example/foo''))"
  by (simp add: createDependency_def createRepository_def)

section \<open>C6: what \<open>createDirectory\<close> answers\<close>

text \<open>\<open>createDirectory\<close> answers \<open>true\<close> exactly when \<open>mkdirp\<close> reports no error,
  whatever it reports as made.\<close>

lemma createDirectory_true_iff:
  "Path_createDirectory p fsys = Some (True, fsys') \<longleftrightarrow> (\<exists>made. mkdirP p None fsys = Some (Inr made, fsys'))"
  by (auto simp: Path_createDirectory_def split: option.splits sum.splits prod.splits)

text \<open>
  Claim C6 says that two calls in a row on one path answer \<open>true\<close>, then \<open>false\<close>. The code
  on \<open>/tmp/build\<close> under an existing \<open>/tmp\<close>: the first call creates the directory and
  answers \<open>true\<close>; the second finds it, \<open>mkdirp\<close> reports no error for a directory that
  is already there, and the answer is \<open>true\<close> again.
\<close>

theorem createDirectory_existing_true:
  "Path_createDirectory ''/tmp/build'' \<lparr>directories = [''/'', ''/tmp''], regular_files = []\<rparr>
     = Some (True, \<lparr>directories = [''/'', ''/tmp'', ''/tmp/build''], regular_files = []\<rparr>)
   \<and> Path_createDirectory ''/tmp/build''
       \<lparr>directories = [''/'', ''/tmp'', ''/tmp/build''], regular_files = []\<rparr>
     = Some (True, \<lparr>directories = [''/'', ''/tmp'', ''/tmp/build''], regular_files = []\<rparr>)"
  by (simp add: Path_createDirectory_def mkdirP.simps fs_mkdir_def accessSync_def path_eval)

text \<open>The parts of the claim the code does keep: a missing parent is created on the way,
  and a name taken by a regular file gives \<open>false\<close>.\<close>

lemma createDirectory_nested:
  "Path_createDirectory ''/tmp/a/b'' \<lparr>directories = [''/'', ''/tmp''], regular_files = []\<rparr>
     = Some (True, \<lparr>directories = [''/'', ''/tmp'', ''/tmp/a'', ''/tmp/a/b''], regular_files = []\<rparr>)"
  by (simp add: Path_createDirectory_def mkdirP.simps fs_mkdir_def accessSync_def path_eval)

lemma createDirectory_over_file:
  "Path_createDirectory ''/b'' \<lparr>directories = [''/''], regular_files = [(''/b'', ''x'')]\<rparr>
     = Some (False, \<lparr>directories = [''/''], regular_files = [(''/b'', ''x'')]\<rparr>)"
  by (simp add: Path_createDirectory_def mkdirP.simps fs_mkdir_def accessSync_def path_eval)

section \<open>C7: the tag of the log lines of \<open>execute\<close>\<close>

text \<open>
  Claim C7 says that every invocation logs under \<open>options.tag\<close> at its start and at its
  successful end. The code for \<open>execute("make", {cwd: "/b", tag: "T"})\<close>: the first line,
  \<open>Running in /b\<close>, goes out under the command \<open>make\<close>; only the \<open>Created\<close> line (when
  \<open>createDirectory\<close> said \<open>true\<close>) and the final line carry \<open>T\<close>. Where \<open>/b\<close> is a
  regular file nothing is logged under \<open>T\<close> at all. Without a \<open>cwd\<close> the first line does
  carry \<open>T\<close>.
\<close>

theorem execute_start_line_tag:
  "System_execute (\<lambda>command dir fsys. (Inr (''out'', ''''), fsys)) ''make''
      (Some \<lparr>cwd = Some ''/b'', tag = Some ''T''\<rparr>)
      \<lparr>fs = \<lparr>directories = [''/'', ''/b''], regular_files = []\<rparr>, console = [], arrays = []\<rparr>
     = Some (Inr \<lparr>stdout = ''out'', stderr = ''''\<rparr>,
        \<lparr>fs = \<lparr>directories = [''/'', ''/b''], regular_files = []\<rparr>,
         console = [(''make'', ''Running in /b''), (''T'', ''Created /b''),
                    (''T'', ''Finished successfullly'')],
         arrays = []\<rparr>)
   \<and> System_execute (\<lambda>command dir fsys. (Inl (ExecError ''ENOTDIR''), fsys)) ''make''
      (Some \<lparr>cwd = Some ''/b'', tag = Some ''T''\<rparr>)
      \<lparr>fs = \<lparr>directories = [''/''], regular_files = [(''/b'', ''x'')]\<rparr>, console = [],
       arrays = []\<rparr>
     = Some (Inl (ExecError ''ENOTDIR''),
        \<lparr>fs = \<lparr>directories = [''/''], regular_files = [(''/b'', ''x'')]\<rparr>,
         console = [(''make'', ''Running in /b'')], arrays = []\<rparr>)
   \<and> System_execute (\<lambda>command dir fsys. (Inr (''out'', ''''), fsys)) ''make''
      (Some \<lparr>cwd = None, tag = Some ''T''\<rparr>)
      \<lparr>fs = \<lparr>directories = [''/'', ''/b''], regular_files = []\<rparr>, console = [], arrays = []\<rparr>
     = Some (Inr \<lparr>stdout = ''out'', stderr = ''''\<rparr>,
        \<lparr>fs = \<lparr>directories = [''/'', ''/b''], regular_files = []\<rparr>,
         console = [(''T'', ''Running in the current working directory''),
                    (''T'', ''Finished successfullly'')],
         arrays = []\<rparr>)"
  by (simp add: System_execute_def execute_command_def raftlog_def Path_createDirectory_def
      mkdirP.simps fs_mkdir_def accessSync_def path_eval Let_def)

section \<open>C3: the three stages of one dependency\<close>

text \<open>
  Claim C3: in every run of \<open>getDependency\<close>, whatever the outcomes \<open>rs\<close> of the stages:
  the run starts by logging \<open>Downloading\<close> and calling \<open>download\<close>; a stage settles only
  after it has been called, and with the outcome the environment gave it; \<open>build\<close> is called
  exactly when the download has been fulfilled, after it and after its log line, and
  \<open>install\<close> exactly when the build has been fulfilled (never the other way round); a
  rejected stage means that no later stage is ever called and that the pipeline's promise is
  rejected with the same error, the rejection being the last thing that happened; the first
  error among the outcomes is the pipeline's failure; the pipeline is fulfilled exactly when
  the install has been fulfilled, \<open>Ready\<close> being the last line, and stays pending in the
  stage whose outcome is still missing. No event happens twice.
\<close>

theorem getDependency_sequential:
  "take 2 (fst (getDependency_run i nm rs)) = [Logged nm ''Downloading'', Called i Downloading]
   \<and> (\<forall>s r. Settled i s r \<in> set (fst (getDependency_run i nm rs)) \<longrightarrow>
        before (Called i s) (Settled i s r) (fst (getDependency_run i nm rs)))
   \<and> (rs \<noteq> [] \<longrightarrow> Settled i Downloading (hd rs) \<in> set (fst (getDependency_run i nm rs)))
   \<and> (\<forall>r rest. rs = None # r # rest \<longrightarrow>
        Settled i Building r \<in> set (fst (getDependency_run i nm rs)))
   \<and> (\<forall>r rest. rs = None # None # r # rest \<longrightarrow>
        Settled i Installing r \<in> set (fst (getDependency_run i nm rs)))
   \<and> (Settled i Downloading None \<in> set (fst (getDependency_run i nm rs))
        \<longleftrightarrow> Called i Building \<in> set (fst (getDependency_run i nm rs)))
   \<and> (Settled i Building None \<in> set (fst (getDependency_run i nm rs))
        \<longleftrightarrow> Called i Installing \<in> set (fst (getDependency_run i nm rs)))
   \<and> (Called i Building \<in> set (fst (getDependency_run i nm rs)) \<longrightarrow>
      before (Settled i Downloading None) (Logged nm ''Building'') (fst (getDependency_run i nm rs))
    \<and> before (Logged nm ''Building'') (Called i Building) (fst (getDependency_run i nm rs))
    \<and> before (Settled i Downloading None) (Called i Building) (fst (getDependency_run i nm rs))
    \<and> \<not> before (Called i Building) (Settled i Downloading None) (fst (getDependency_run i nm rs)))
   \<and> (Called i Installing \<in> set (fst (getDependency_run i nm rs)) \<longrightarrow>
      before (Settled i Building None) (Logged nm ''Installing'') (fst (getDependency_run i nm rs))
    \<and> before (Logged nm ''Installing'') (Called i Installing) (fst (getDependency_run i nm rs))
    \<and> before (Settled i Building None) (Called i Installing) (fst (getDependency_run i nm rs))
    \<and> \<not> before (Called i Installing) (Settled i Building None) (fst (getDependency_run i nm rs)))
   \<and> (\<forall>e. Settled i Downloading (Some e) \<in> set (fst (getDependency_run i nm rs)) \<longrightarrow>
      Called i Building \<notin> set (fst (getDependency_run i nm rs))
    \<and> Called i Installing \<notin> set (fst (getDependency_run i nm rs))
    \<and> snd (getDependency_run i nm rs) = Rejected e)
   \<and> (\<forall>e. Settled i Building (Some e) \<in> set (fst (getDependency_run i nm rs)) \<longrightarrow>
      Called i Installing \<notin> set (fst (getDependency_run i nm rs))
    \<and> snd (getDependency_run i nm rs) = Rejected e)
   \<and> (\<forall>e. Settled i Installing (Some e) \<in> set (fst (getDependency_run i nm rs)) \<longrightarrow>
      snd (getDependency_run i nm rs) = Rejected e)
   \<and> (\<forall>e. snd (getDependency_run i nm rs) = Rejected e \<longrightarrow>
      (\<exists>s. last (fst (getDependency_run i nm rs)) = Settled i s (Some e)))
   \<and> (snd (getDependency_run i nm rs) = Fulfilled \<longleftrightarrow>
      Settled i Installing None \<in> set (fst (getDependency_run i nm rs)))
   \<and> (snd (getDependency_run i nm rs) = Fulfilled \<longrightarrow>
      last (fst (getDependency_run i nm rs)) = Logged nm ''Ready'')
   \<and> (rs = [] \<longrightarrow> snd (getDependency_run i nm rs) = Pending Downloading)
   \<and> (rs = [None] \<longrightarrow> snd (getDependency_run i nm rs) = Pending Building)
   \<and> (rs = [None, None] \<longrightarrow> snd (getDependency_run i nm rs) = Pending Installing)
   \<and> (\<forall>rest. rs = None # None # None # rest \<longrightarrow> snd (getDependency_run i nm rs) = Fulfilled)
   \<and> (\<forall>e rest. rs = Some e # rest \<or> rs = None # Some e # rest
          \<or> rs = None # None # Some e # rest \<longrightarrow>
        snd (getDependency_run i nm rs) = Rejected e)
   \<and> distinct (fst (getDependency_run i nm rs))"
proof (cases rs rule: outcomes_shape)
  case 1
  then show ?thesis by (simp add: getDependency_run_Nil before_def)
next
  case (2 e rest)
  then show ?thesis by (simp add: getDependency_run_download_rejected before_def)
next
  case 3
  then show ?thesis by (simp add: getDependency_run_downloaded before_def)
next
  case (4 e rest)
  then show ?thesis by (simp add: getDependency_run_build_rejected before_def)
next
  case 5
  then show ?thesis by (simp add: getDependency_run_built before_def)
next
  case (6 e rest)
  then show ?thesis by (simp add: getDependency_run_install_rejected before_def)
next
  case (7 rest)
  then show ?thesis by (simp add: getDependency_run_installed before_def)
qed

text \<open>Claim C3 for \<open>foo\<close> with a failing build, with three stages that succeed, and with
  only the download settled.\<close>

theorem getDependency_sequential_witness:
  "take 2 (fst (getDependency_run 0 ''foo'' [None, Some (ExecError ''make'')]))
     = [Logged ''foo'' ''Downloading'', Called 0 Downloading]
   \<and> Settled 0 Downloading None
        \<in> set (fst (getDependency_run 0 ''foo'' [None, Some (ExecError ''make'')]))
   \<and> before (Called 0 Downloading) (Settled 0 Downloading None)
        (fst (getDependency_run 0 ''foo'' [None, Some (ExecError ''make'')]))
   \<and> Called 0 Building \<in> set (fst (getDependency_run 0 ''foo'' [None, Some (ExecError ''make'')]))
   \<and> before (Settled 0 Downloading None) (Called 0 Building)
        (fst (getDependency_run 0 ''foo'' [None, Some (ExecError ''make'')]))
   \<and> Settled 0 Building (Some (ExecError ''make''))
        \<in> set (fst (getDependency_run 0 ''foo'' [None, Some (ExecError ''make'')]))
   \<and> Called 0 Installing \<notin> set (fst (getDependency_run 0 ''foo'' [None, Some (ExecError ''make'')]))
   \<and> snd (getDependency_run 0 ''foo'' [None, Some (ExecError ''make'')]) = Rejected (ExecError ''make'')
   \<and> take 2 (fst (getDependency_run 0 ''foo'' [None, None, None]))
     = [Logged ''foo'' ''Downloading'', Called 0 Downloading]
   \<and> Called 0 Building \<in> set (fst (getDependency_run 0 ''foo'' [None, None, None]))
   \<and> Called 0 Installing \<in> set (fst (getDependency_run 0 ''foo'' [None, None, None]))
   \<and> before (Settled 0 Building None) (Called 0 Installing)
        (fst (getDependency_run 0 ''foo'' [None, None, None]))
   \<and> Settled 0 Installing None \<in> set (fst (getDependency_run 0 ''foo'' [None, None, None]))
   \<and> snd (getDependency_run 0 ''foo'' [None, None, None]) = Fulfilled
   \<and> last (fst (getDependency_run 0 ''foo'' [None, None, None])) = Logged ''foo'' ''Ready''
   \<and> snd (getDependency_run 0 ''foo'' [None]) = Pending Building"
proof -
  let ?bad = "[None, Some (ExecError ''make'')]"
  let ?good = "[None, None, None] :: error option list"
  let ?fail = "fst (getDependency_run 0 ''foo'' ?bad)"
  let ?ok = "fst (getDependency_run 0 ''foo'' ?good)"
  note fail = getDependency_sequential[of 0 "''foo''" ?bad]
  note ok = getDependency_sequential[of 0 "''foo''" ?good]
  note one = getDependency_sequential[of 0 "''foo''" "[None]"]
  have f0: "take 2 ?fail = [Logged ''foo'' ''Downloading'', Called 0 Downloading]"
    by (rule fail[THEN conjunct1])
  have f1: "Settled 0 Downloading None \<in> set ?fail"
    using fail[THEN conjunct2, THEN conjunct2, THEN conjunct1] by simp
  have f2: "before (Called 0 Downloading) (Settled 0 Downloading None) ?fail"
    using fail[THEN conjunct2, THEN conjunct1] f1 by blast
  have f3: "Called 0 Building \<in> set ?fail"
    using fail[THEN conjunct2, THEN conjunct2, THEN conjunct2, THEN conjunct2, THEN conjunct2, THEN conjunct1] f1 by blast
  have f4: "before (Settled 0 Downloading None) (Called 0 Building) ?fail"
    using fail[THEN conjunct2, THEN conjunct2, THEN conjunct2, THEN conjunct2, THEN conjunct2, THEN conjunct2, THEN conjunct2, THEN conjunct1] f3 by blast
  have f5: "Settled 0 Building (Some (ExecError ''make'')) \<in> set ?fail"
    using fail[THEN conjunct2, THEN conjunct2, THEN conjunct2, THEN conjunct1] by simp
  have f6: "Called 0 Installing \<notin> set ?fail"
    and f7: "snd (getDependency_run 0 ''foo'' ?bad) = Rejected (ExecError ''make'')"
    using fail[THEN conjunct2, THEN conjunct2, THEN conjunct2, THEN conjunct2, THEN conjunct2, THEN conjunct2, THEN conjunct2, THEN conjunct2, THEN conjunct2, THEN conjunct2, THEN conjunct1] f5 by blast+
  have k0: "take 2 ?ok = [Logged ''foo'' ''Downloading'', Called 0 Downloading]"
    by (rule ok[THEN conjunct1])
  have k1: "Settled 0 Downloading None \<in> set ?ok"
    using ok[THEN conjunct2, THEN conjunct2, THEN conjunct1] by simp
  have k2: "Called 0 Building \<in> set ?ok"
    using ok[THEN conjunct2, THEN conjunct2, THEN conjunct2, THEN conjunct2, THEN conjunct2, THEN conjunct1] k1 by blast
  have k3: "Settled 0 Building None \<in> set ?ok"
    using ok[THEN conjunct2, THEN conjunct2, THEN conjunct2, THEN conjunct1] by simp
  have k4: "Called 0 Installing \<in> set ?ok"
    using ok[THEN conjunct2, THEN conjunct2, THEN conjunct2, THEN conjunct2, THEN conjunct2, THEN conjunct2, THEN conjunct1] k3 by blast
  have k5: "before (Settled 0 Building None) (Called 0 Installing) ?ok"
    using ok[THEN conjunct2, THEN conjunct2, THEN conjunct2, THEN conjunct2, THEN conjunct2, THEN conjunct2, THEN conjunct2, THEN conjunct2, THEN conjunct1] k4 by blast
  have k6: "snd (getDependency_run 0 ''foo'' ?good) = Fulfilled"
    using ok[THEN conjunct2, THEN conjunct2, THEN conjunct2, THEN conjunct2, THEN conjunct2, THEN conjunct2, THEN conjunct2, THEN conjunct2, THEN conjunct2, THEN conjunct2, THEN conjunct2, THEN conjunct2, THEN conjunct2, THEN conjunct2, THEN conjunct2, THEN conjunct2, THEN conjunct2, THEN conjunct2, THEN conjunct1] by simp
  have k7: "Settled 0 Installing None \<in> set ?ok"
    using ok[THEN conjunct2, THEN conjunct2, THEN conjunct2, THEN conjunct2, THEN conjunct2, THEN conjunct2, THEN conjunct2, THEN conjunct2, THEN conjunct2, THEN conjunct2, THEN conjunct2, THEN conjunct2, THEN conjunct2, THEN conjunct1] k6 by blast
  have k8: "last ?ok = Logged ''foo'' ''Ready''"
    using ok[THEN conjunct2, THEN conjunct2, THEN conjunct2, THEN conjunct2, THEN conjunct2, THEN conjunct2, THEN conjunct2, THEN conjunct2, THEN conjunct2, THEN conjunct2, THEN conjunct2, THEN conjunct2, THEN conjunct2, THEN conjunct2, THEN conjunct1] k6 by blast
  have o1: "snd (getDependency_run 0 ''foo'' [None]) = Pending Building"
    using one[THEN conjunct2, THEN conjunct2, THEN conjunct2, THEN conjunct2, THEN conjunct2, THEN conjunct2, THEN conjunct2, THEN conjunct2, THEN conjunct2, THEN conjunct2, THEN conjunct2, THEN conjunct2, THEN conjunct2, THEN conjunct2, THEN conjunct2, THEN conjunct2, THEN conjunct1] by simp
  from f0 f1 f2 f3 f4 f5 f6 f7 k0 k2 k4 k5 k7 k6 k8 o1 show ?thesis by (intro conjI)
qed

section \<open>C2: the project build waits for every pipeline\<close>

text \<open>
  Claim C2: in every run of the build, whatever the order in which the stage promises
  settle and whatever their outcomes, \<open>project.build\<close> is called only when every pipeline
  is fulfilled, after the fulfilled \<open>install\<close> of each of them; it is never called in a run
  in which some pipeline is rejected, and it is called once all are fulfilled. A pipeline
  that settles, also by failing, leaves every other pipeline as it is, and a pending
  pipeline takes its next step whatever the state of the others.
\<close>

theorem build_after_all_pipelines:
  "(ProjectBuildCalled \<in> set (events (build_run nms sch)) \<longrightarrow>
       list_all (\<lambda>q. q = Fulfilled) (pipelines (build_run nms sch))
     \<and> (\<forall>i<length nms.
           before (Settled i Installing None) ProjectBuildCalled (events (build_run nms sch))))
   \<and> ((\<exists>i<length nms. \<exists>e. pipelines (build_run nms sch) ! i = Rejected e) \<longrightarrow>
       ProjectBuildCalled \<notin> set (events (build_run nms sch)))
   \<and> (list_all (\<lambda>q. q = Fulfilled) (pipelines (build_run nms sch)) \<longrightarrow>
       ProjectBuildCalled \<in> set (events (build_run nms sch)))
   \<and> (\<forall>i r k. k \<noteq> i \<longrightarrow>
         pipelines (stage_settles i r (build_run nms sch)) ! k = pipelines (build_run nms sch) ! k)
   \<and> (\<forall>j s r. j < length nms \<and> pipelines (build_run nms sch) ! j = Pending s \<longrightarrow>
         pipelines (stage_settles j r (build_run nms sch)) ! j
           = snd (getDependency_then j (nms ! j) r (Pending s)))"
proof -
  let ?st = "build_run nms sch"
  have inv: "barrier_inv ?st" by (rule barrier_inv_run)
  have nm: "names ?st = nms" by (rule names_run)
  from inv[unfolded barrier_inv_def] nm have
    len: "length (pipelines ?st) = length nms"
    and called: "ProjectBuildCalled \<in> set (events ?st) \<longleftrightarrow> map_promise ?st = MapFulfilled"
    and full: "map_promise ?st = MapFulfilled \<longleftrightarrow> list_all (\<lambda>q. q = Fulfilled) (pipelines ?st)"
    and bef: "ProjectBuildCalled \<in> set (events ?st) \<longrightarrow>
            (\<forall>i<length (pipelines ?st).
               before (Settled i Installing None) ProjectBuildCalled (events ?st))"
    by simp_all
  have a: "ProjectBuildCalled \<in> set (events ?st) \<longrightarrow>
       list_all (\<lambda>q. q = Fulfilled) (pipelines ?st)
     \<and> (\<forall>i<length nms. before (Settled i Installing None) ProjectBuildCalled (events ?st))"
    using called full bef len by simp
  have b: "(\<exists>i<length nms. \<exists>e. pipelines ?st ! i = Rejected e) \<longrightarrow>
       ProjectBuildCalled \<notin> set (events ?st)"
  proof (intro impI notI)
    assume "\<exists>i<length nms. \<exists>e. pipelines ?st ! i = Rejected e"
      and "ProjectBuildCalled \<in> set (events ?st)"
    then show False using a len by (auto simp: list_all_length)
  qed
  have c: "list_all (\<lambda>q. q = Fulfilled) (pipelines ?st) \<longrightarrow> ProjectBuildCalled \<in> set (events ?st)"
    using called full by simp
  have d: "\<forall>i r k. k \<noteq> i \<longrightarrow> pipelines (stage_settles i r ?st) ! k = pipelines ?st ! k"
    by (simp add: stage_settles_others)
  have e: "\<forall>j s r. j < length nms \<and> pipelines ?st ! j = Pending s \<longrightarrow>
         pipelines (stage_settles j r ?st) ! j = snd (getDependency_then j (nms ! j) r (Pending s))"
    using stage_settles_proceeds[of _ ?st] len nm by auto
  from a b c d e show ?thesis by blast
qed

text \<open>
  Claim C2 for the dependencies \<open>a\<close> and \<open>b\<close>: when the download of \<open>a\<close> fails, \<open>b\<close>
  still runs to \<open>Ready\<close> and the project is not built; when both run through, interleaved,
  the project build is called after both installs.
\<close>

theorem build_after_all_pipelines_witness:
  "pipelines (build_run [''a'', ''b'']
       [(0, Some (ExecError ''clone'')), (1, None), (1, None), (1, None)]) ! 0
     = Rejected (ExecError ''clone'')
   \<and> pipelines (build_run [''a'', ''b'']
       [(0, Some (ExecError ''clone'')), (1, None), (1, None), (1, None)]) ! 1
     = Fulfilled
   \<and> ProjectBuildCalled \<notin> set (events (build_run [''a'', ''b'']
       [(0, Some (ExecError ''clone'')), (1, None), (1, None), (1, None)]))
   \<and> pipelines (build_run [''a'', ''b''] [(0, Some (ExecError ''clone''))]) ! 1
     = Pending Downloading
   \<and> pipelines (stage_settles 1 None
         (build_run [''a'', ''b''] [(0, Some (ExecError ''clone''))])) ! 1
     = Pending Building
   \<and> ProjectBuildCalled \<in> set (events (build_run [''a'', ''b'']
       [(0, None), (1, None), (1, None), (0, None), (1, None), (0, None)]))
   \<and> pipelines (build_run [''a'', ''b'']
       [(0, None), (1, None), (1, None), (0, None), (1, None), (0, None)])
     = [Fulfilled, Fulfilled]
   \<and> before (Settled 0 Installing None) ProjectBuildCalled (events (build_run [''a'', ''b'']
       [(0, None), (1, None), (1, None), (0, None), (1, None), (0, None)]))
   \<and> before (Settled 1 Installing None) ProjectBuildCalled (events (build_run [''a'', ''b'']
       [(0, None), (1, None), (1, None), (0, None), (1, None), (0, None)]))"
proof -
  let ?nms = "[''a'', ''b'']"
  let ?bad = "[(0, Some (ExecError ''clone'')), (1, None), (1, None), (1, None)]"
  let ?one = "[(0::nat, Some (ExecError ''clone''))]"
  let ?good = "[(0::nat, None :: error option), (1, None), (1, None), (0, None), (1, None), (0, None)]"
  have p0: "pipelines (build_run ?nms ?bad) ! 0 = Rejected (ExecError ''clone'')"
    and p1: "pipelines (build_run ?nms ?bad) ! 1 = Fulfilled"
    by (simp_all add: build_eval)
  have q1: "pipelines (build_run ?nms ?one) ! 1 = Pending Downloading"
    by (simp add: build_eval)
  have g: "ProjectBuildCalled \<in> set (events (build_run ?nms ?good))"
    and gp: "pipelines (build_run ?nms ?good) = [Fulfilled, Fulfilled]"
    by (simp_all add: build_eval)
  note bad = build_after_all_pipelines[of ?nms ?bad]
  note one = build_after_all_pipelines[of ?nms ?one]
  note good = build_after_all_pipelines[of ?nms ?good]
  have "\<exists>i<length ?nms. \<exists>e. pipelines (build_run ?nms ?bad) ! i = Rejected e"
    using p0 by (intro exI[of _ 0]) simp
  with bad have r1: "ProjectBuildCalled \<notin> set (events (build_run ?nms ?bad))" by blast
  have "1 < length ?nms \<and> pipelines (build_run ?nms ?one) ! 1 = Pending Downloading"
    using q1 by simp
  with one have "pipelines (stage_settles 1 None (build_run ?nms ?one)) ! 1
      = snd (getDependency_then 1 (?nms ! 1) None (Pending Downloading))"
    by blast
  then have r2: "pipelines (stage_settles 1 None (build_run ?nms ?one)) ! 1 = Pending Building"
    by simp
  from good g have "\<forall>i<length ?nms.
      before (Settled i Installing None) ProjectBuildCalled (events (build_run ?nms ?good))"
    by blast
  then have r3: "before (Settled 0 Installing None) ProjectBuildCalled (events (build_run ?nms ?good))"
    and r4: "before (Settled 1 Installing None) ProjectBuildCalled (events (build_run ?nms ?good))"
    by simp_all
  from p0 p1 r1 q1 r2 g gp r3 r4 show ?thesis by (intro conjI)
qed

end
